theory Spec2Isabelle
  imports Complex_Main "HOL-Library.Word" "HOL-Library.Char_ord" "HOL-Library.List_Lexorder"
begin

unbundle bit_operations_syntax

section \<open>Strings\<close>

text \<open>
  Go strings are byte sequences; they are modelled as \<open>string\<close> (a list of 8-bit
  characters). Go compares strings bytewise and lexicographically, a proper prefix being
  smaller: this is the order of \<open>Char_ord\<close> lifted by \<open>List_Lexorder\<close>, so
  \<open>sort.Strings\<close> and \<open>slices.Sort\<close> on strings are \<open>sort\<close>.
\<close>

text \<open>\<open>strings.HasPrefix(s, p)\<close>: \<open>len(s) >= len(p) && s[:len(p)] == p\<close>.\<close>

definition HasPrefix :: "string \<Rightarrow> string \<Rightarrow> bool" where
  "HasPrefix s p = (length p \<le> length s \<and> take (length p) s = p)"

text \<open>\<open>strings.Split(s, sep)\<close> for a separator of one byte.\<close>

fun Split :: "char \<Rightarrow> string \<Rightarrow> string list" where
  "Split sep [] = [[]]"
| "Split sep (c # cs) =
     (if c = sep then [] # Split sep cs
      else (case Split sep cs of [] \<Rightarrow> [[c]] | w # ws \<Rightarrow> (c # w) # ws))"

text \<open>\<open>strings.Join(parts, sep)\<close>.\<close>

fun Join :: "string \<Rightarrow> string list \<Rightarrow> string" where
  "Join sep [] = []"
| "Join sep [w] = w"
| "Join sep (w # v # ws) = w @ sep @ Join sep (v # ws)"

text \<open>\<open>utils.Surt\<close>: split on dots, sort the parts, join with commas.\<close>

definition Surt :: "string \<Rightarrow> string" where
  "Surt url = Join '','' (sort (Split CHR ''.'' url))"

section \<open>The key-value store as the query layer sees it\<close>

text \<open>
  The store is reached through the go-redis client, a library outside the repository. Its
  three read commands are modelled on a store that is either unreachable (every command
  returns an error) or holds, per key, a hash as a list of (field, value) pairs in the
  server's order; a key that does not exist is the empty hash.

  \<^item> \<open>HKeys(key).Result()\<close> returns the fields of the hash (none for a missing key).
  \<^item> \<open>HGet(key, field).Result()\<close> returns the value of the field; for a field that
    does not exist the server replies nil and go-redis returns the empty string together
    with the error \<open>redis.Nil\<close>.
  \<^item> \<open>HMGet(key, fields...).Result()\<close> returns one entry per requested field, nil
    for a field that does not exist; the server rejects the command with no field at all
    (wrong number of arguments).
\<close>

datatype redis_error = RedisNil | RedisFailure

record redis_client =
  reachable :: bool
  hashes :: "string \<Rightarrow> (string \<times> string) list"

definition HKeys :: "redis_client \<Rightarrow> string \<Rightarrow> redis_error + string list" where
  "HKeys client key =
     (if reachable client then Inr (map fst (hashes client key)) else Inl RedisFailure)"

definition HGet :: "redis_client \<Rightarrow> string \<Rightarrow> string \<Rightarrow> redis_error + string" where
  "HGet client key field =
     (if reachable client
      then (case map_of (hashes client key) field of
              None \<Rightarrow> Inl RedisNil
            | Some v \<Rightarrow> Inr v)
      else Inl RedisFailure)"

definition HMGet :: "redis_client \<Rightarrow> string \<Rightarrow> string list \<Rightarrow> redis_error + string option list" where
  "HMGet client key flds =
     (if reachable client
      then (if flds = [] then Inl RedisFailure
            else Inr (map (map_of (hashes client key)) flds))
      else Inl RedisFailure)"

section \<open>Queries by year, with pagination\<close>

record CaptureResult =
  Timestamp :: string
  Simhash :: string

text \<open>
  What a query can end with instead of data: the three Go errors of \<open>utils.go\<close>
  (\<open>invalid URL or timestamp\<close>, \<open>NO_CAPTURES\<close>, \<open>error loading simhash data\<close>
  wrapping the client's error), and the run-time panic of a slice expression whose bounds
  are out of range.
\<close>

datatype query_error = InvalidInput | NoCaptures | LoadError redis_error | SlicePanic

text \<open>
  \<open>handleResults\<close> computes the number of pages in floating point:
  \<open>int(math.Ceil(float64(len(timestamps)) / float64(snapshotsPerPage)))\<close>. For a
  divisor other than zero the quotient of the two integers is modelled exactly, as a
  real number (float64 represents every integer below \<open>2^53\<close>, and the rounding of the
  quotient cannot cross an integer for a dividend below \<open>2^53\<close>). For the divisor zero
  the quotient is not finite (\<open>+Inf\<close> for a positive length, \<open>NaN\<close> for length zero),
  and Go leaves the result of converting it to \<open>int\<close> to the implementation: the model
  takes that conversion as the parameter \<open>conv\<close>. \<open>conv_amd64\<close> and \<open>conv_arm64\<close> are
  the conversions of the two common 64-bit targets (the first yields the smallest
  \<open>int64\<close> for every value out of range, the second saturates and maps \<open>NaN\<close> to 0).
\<close>

datatype nonfinite = PosInf | NaN

definition conv_amd64 :: "nonfinite \<Rightarrow> int" where
  "conv_amd64 x = - (2 ^ 63)"

definition conv_arm64 :: "nonfinite \<Rightarrow> int" where
  "conv_arm64 x = (case x of PosInf \<Rightarrow> 2 ^ 63 - 1 | NaN \<Rightarrow> 0)"

definition totalPagesOf :: "(nonfinite \<Rightarrow> int) \<Rightarrow> int \<Rightarrow> int \<Rightarrow> int" where
  "totalPagesOf conv n perPage =
     (if perPage = 0 then (if n = 0 then conv NaN else conv PosInf)
      else \<lceil>real_of_int n / real_of_int perPage\<rceil>)"

text \<open>
  The slice expression \<open>timestamps[start:end]\<close>: it panics unless
  \<open>0 <= start <= end <= cap(timestamps)\<close>. The slices sliced here are built by
  \<open>append\<close> and the code keeps \<open>end <= len(timestamps)\<close>, so the bound checked is the
  length.
\<close>

definition slice :: "'a list \<Rightarrow> int \<Rightarrow> int \<Rightarrow> query_error + 'a list" where
  "slice xs start end' =
     (if 0 \<le> start \<and> start \<le> end' \<and> end' \<le> int (length xs)
      then Inr (take (nat (end' - start)) (drop (nat start) xs))
      else Inl SlicePanic)"

text \<open>The page of \<open>timestamps\<close> that \<open>handleResults\<close> goes on to fetch.\<close>

definition pageOf :: "(nonfinite \<Rightarrow> int) \<Rightarrow> string list \<Rightarrow> int \<Rightarrow> int \<Rightarrow> query_error + string list" where
  "pageOf conv timestamps snapshotsPerPage page =
     (if page = - 1 then Inr timestamps
      else (let totalPages = totalPagesOf conv (int (length timestamps)) snapshotsPerPage in
            if totalPages > 0
            then (let page' = min page totalPages;
                      start = (page' - 1) * snapshotsPerPage;
                      end' = min (page' * snapshotsPerPage) (int (length timestamps))
                  in slice timestamps start end')
            else Inr timestamps))"

text \<open>
  The second half of \<open>handleResults\<close>: one \<open>HMGet\<close> for the page, then one
  \<open>CaptureResult\<close> per entry that is a string (a nil entry is skipped); an error of
  the client is logged and yields no result.
\<close>

definition fetchResults :: "redis_client \<Rightarrow> string \<Rightarrow> string list \<Rightarrow> CaptureResult list" where
  "fetchResults client key timestamps =
     (case HMGet client key timestamps of
        Inl e \<Rightarrow> []
      | Inr results \<Rightarrow>
          concat (map (\<lambda>(ts, r). case r of
                                    None \<Rightarrow> []
                                  | Some simhashStr \<Rightarrow> [\<lparr>Timestamp = ts, Simhash = simhashStr\<rparr>])
                      (zip timestamps results)))"

definition handleResults ::
  "(nonfinite \<Rightarrow> int) \<Rightarrow> redis_client \<Rightarrow> string list \<Rightarrow> string \<Rightarrow> int \<Rightarrow> int
     \<Rightarrow> query_error + CaptureResult list" where
  "handleResults conv client timestamps key snapshotsPerPage page =
     (case pageOf conv timestamps snapshotsPerPage page of
        Inl e \<Rightarrow> Inl e
      | Inr ts \<Rightarrow> Inr (fetchResults client key ts))"

text \<open>
  The loop of \<open>YearSimhash\<close> over the sorted fields: a field equal to the year ends the
  query with \<open>NO_CAPTURES\<close>; a field that starts with the year is kept.
\<close>

fun scanYear :: "string \<Rightarrow> string list \<Rightarrow> string list \<Rightarrow> query_error + string list" where
  "scanYear year [] timeStampsToFetch = Inr timeStampsToFetch"
| "scanYear year (ts # rest) timeStampsToFetch =
     (if ts = year then Inl NoCaptures
      else if HasPrefix ts year then scanYear year rest (timeStampsToFetch @ [ts])
      else scanYear year rest timeStampsToFetch)"

definition YearSimhash ::
  "(nonfinite \<Rightarrow> int) \<Rightarrow> redis_client \<Rightarrow> string \<Rightarrow> string \<Rightarrow> int \<Rightarrow> int
     \<Rightarrow> query_error + CaptureResult list" where
  "YearSimhash conv client url year page snapshotsPerPage =
     (if url = [] \<or> year = [] then Inl InvalidInput
      else (let key = Surt url in
            case HKeys client key of
              Inl e \<Rightarrow> Inl NoCaptures
            | Inr timestamps \<Rightarrow>
                if length timestamps = 0 then Inl NoCaptures
                else (case scanYear year (sort timestamps) [] of
                        Inl e \<Rightarrow> Inl e
                      | Inr timeStampsToFetch \<Rightarrow>
                          if length timeStampsToFetch = 0 then Inl NoCaptures
                          else handleResults conv client timeStampsToFetch key snapshotsPerPage page)))"

section \<open>Queries by timestamp\<close>

text \<open>
  \<open>validateTimestamp\<close> asks the standard library whether the timestamp parses with the
  layout \<open>20060102150405\<close>; \<open>time.Parse\<close> is a parameter of the model (layout, value,
  whether it parses). \<open>timestamp[:4]\<close> panics on a string shorter than four bytes.
  The \<open>map[string]string\<close> that the function returns is written as the list of its
  entries.
\<close>

definition validateTimestamp :: "(string \<Rightarrow> string \<Rightarrow> bool) \<Rightarrow> string \<Rightarrow> bool" where
  "validateTimestamp timeParse ts = timeParse ''20060102150405'' ts"

definition TimestampSimHash ::
  "(string \<Rightarrow> string \<Rightarrow> bool) \<Rightarrow> redis_client \<Rightarrow> string \<Rightarrow> string
     \<Rightarrow> query_error + (string \<times> string) list" where
  "TimestampSimHash timeParse client url timestamp =
     (if url = [] then Inl InvalidInput
      else if timestamp = [] then Inl InvalidInput
      else if validateTimestamp timeParse timestamp
      then (let key = Surt url in
            case HGet client key timestamp of
              Inl err \<Rightarrow> Inl (LoadError err)
            | Inr result \<Rightarrow>
                if length result \<noteq> 0 then Inr [(''simhash'', result)]
                else if length timestamp < 4 then Inl SlicePanic
                else (case HGet client key (take 4 timestamp) of
                        Inl err \<Rightarrow> Inl (LoadError err)
                      | Inr result \<Rightarrow>
                          if length result \<noteq> 0
                          then Inr [(''status'', ''error''), (''message'', ''NO_CAPTURES'')]
                          else Inr [(''status'', ''error''), (''message'', ''CAPTURE_NOT_FOUND'')]))
      else Inl InvalidInput)"

section \<open>Downloading a capture\<close>

text \<open>
  The constants of \<open>job.go\<close> that the download uses.
\<close>

definition MAP_CAPTURE_DOWNLOAD :: nat where
  "MAP_CAPTURE_DOWNLOAD = 1000000"

definition MAX_RETRIES :: nat where
  "MAX_RETRIES = 2"

text \<open>
  What \<open>DownloadCapture\<close> looks at in a response: two headers and the body, a byte
  sequence. The status code is never read.
\<close>

record http_response =
  contentEncoding :: string
  contentType :: string
  body :: string

text \<open>
  \<open>exponentialBackoff(retry)\<close>, in microseconds: \<open>1000 * 2^retry\<close> plus the jitter
  \<open>rand.Intn(2000)\<close>. The random source is the parameter \<open>jitter\<close>, read at the
  number of the attempt.
\<close>

definition exponentialBackoff :: "(nat \<Rightarrow> nat) \<Rightarrow> nat \<Rightarrow> nat" where
  "exponentialBackoff jitter retry = 1000 * 2 ^ retry + jitter retry mod 2000"

text \<open>
  The loop \<open>for i := 0; i < MAX_RETRIES; i++\<close> of \<open>DownloadCapture\<close>. The network is
  the parameter \<open>transport\<close>: the outcome of the \<open>k\<close>-th call of \<open>HTTPClient.Do\<close>
  (counted from 0), \<open>None\<close> for a transport error. \<open>reqOK\<close> says whether
  \<open>generateGetRequest\<close> succeeds for the URL of the capture. Each turn sleeps first,
  then builds the request and sends it; an error continues with the next turn, a response
  leaves the loop. The result is the response (if any), the number of requests sent and
  the sleeps taken.
\<close>

function retryLoop ::
  "bool \<Rightarrow> (nat \<Rightarrow> http_response option) \<Rightarrow> (nat \<Rightarrow> nat) \<Rightarrow> nat \<Rightarrow> nat \<Rightarrow> nat list
     \<Rightarrow> http_response option \<times> nat \<times> nat list" where
  "retryLoop reqOK transport jitter i sent slept =
     (if i < MAX_RETRIES
      then (if reqOK
            then (case transport sent of
                    None \<Rightarrow>
                      retryLoop reqOK transport jitter (i + 1) (sent + 1)
                        (slept @ [exponentialBackoff jitter i])
                  | Some resp \<Rightarrow> (Some resp, sent + 1, slept @ [exponentialBackoff jitter i]))
            else retryLoop reqOK transport jitter (i + 1) sent
                   (slept @ [exponentialBackoff jitter i]))
      else (None, sent, slept))"
  by pat_completeness auto
termination
  by (relation "measure (\<lambda>(reqOK, transport, jitter, i, sent, slept). MAX_RETRIES - i)") auto

declare retryLoop.simps [simp del]

text \<open>\<open>strings.Contains\<close>, and \<open>strings.ToLower\<close> on ASCII text (header values).\<close>

fun Contains :: "string \<Rightarrow> string \<Rightarrow> bool" where
  "Contains [] sub = (sub = [])"
| "Contains (c # cs) sub = (if HasPrefix (c # cs) sub then True else Contains cs sub)"

definition ToLower :: "string \<Rightarrow> string" where
  "ToLower s =
     map (\<lambda>c. if CHR ''A'' \<le> c \<and> c \<le> CHR ''Z'' then char_of (of_char c + (32 :: nat)) else c) s"

text \<open>
  What \<open>io.ReadAll(reader)\<close> yields. The reader starts as
  \<open>io.LimitReader(resp.Body, MAP_CAPTURE_DOWNLOAD)\<close>; for a gzip or deflate response it
  is replaced by a decompressing reader built on \<open>resp.Body\<close> itself. The decompressors
  of the standard library are the parameters \<open>gunzip\<close> and \<open>inflate\<close>, from the bytes
  they are given to the bytes they produce, \<open>None\<close> when they report an error.
\<close>

definition readBody ::
  "(string \<Rightarrow> string option) \<Rightarrow> (string \<Rightarrow> string option) \<Rightarrow> http_response \<Rightarrow> string option" where
  "readBody gunzip inflate resp =
     (if Contains (contentEncoding resp) ''gzip'' then gunzip (body resp)
      else if Contains (contentEncoding resp) ''deflate'' then inflate (body resp)
      else Some (take MAP_CAPTURE_DOWNLOAD (body resp)))"

definition decodeResponse ::
  "(string \<Rightarrow> string option) \<Rightarrow> (string \<Rightarrow> string option) \<Rightarrow> http_response \<Rightarrow> string" where
  "decodeResponse gunzip inflate resp =
     (case readBody gunzip inflate resp of
        None \<Rightarrow> []
      | Some data \<Rightarrow>
          (let cType = ToLower (contentType resp) in
           if Contains cType ''text'' \<or> Contains cType ''html'' then data else []))"

definition DownloadCapture ::
  "(string \<Rightarrow> string option) \<Rightarrow> (string \<Rightarrow> string option) \<Rightarrow> bool
     \<Rightarrow> (nat \<Rightarrow> http_response option) \<Rightarrow> (nat \<Rightarrow> nat) \<Rightarrow> string" where
  "DownloadCapture gunzip inflate reqOK transport jitter =
     (case fst (retryLoop reqOK transport jitter 0 0 []) of
        None \<Rightarrow> []
      | Some resp \<Rightarrow> decodeResponse gunzip inflate resp)"

text \<open>The number of HTTP requests one call of \<open>DownloadCapture\<close> sends.\<close>

definition requestsSent :: "bool \<Rightarrow> (nat \<Rightarrow> http_response option) \<Rightarrow> (nat \<Rightarrow> nat) \<Rightarrow> nat" where
  "requestsSent reqOK transport jitter = fst (snd (retryLoop reqOK transport jitter 0 0 []))"

section \<open>The job\<close>

text \<open>
  The fields of \<open>Job\<close> that a run writes. \<open>Info\<close> is a formatted message; the model
  keeps which message it is and its arguments. \<open>Duration\<close> is in nanoseconds and is 0
  in a job made by \<open>NewJobQueue\<close>.
\<close>

datatype job_info =
    NoInfo
  | Fetching string string
  | CdxFailed string string string
  | ProcessedOutOf nat nat
  | Processed nat
  | StoreFailed string string

record Job =
  ID :: string
  URL :: string
  Year :: string
  State :: string
  Info :: job_info
  Duration :: int

definition NewJobQueue :: Job where
  "NewJobQueue = \<lparr>ID = [], URL = [], Year = [], State = [], Info = NoInfo, Duration = 0\<rparr>"

text \<open>The synchronous part of \<open>RunJob\<close>; the id is a hash of the inputs and the clock.\<close>

definition RunJob_start :: "Job \<Rightarrow> string \<Rightarrow> string \<Rightarrow> string \<Rightarrow> Job" where
  "RunJob_start j jobID url year =
     j\<lparr>ID := jobID, URL := url, Year := year, State := ''PENDING'', Info := Fetching url year\<rparr>"

text \<open>
  The goroutine of \<open>RunJob\<close>, as the sequence of its writes to the job. Its environment
  is given by parameters: \<open>cdx\<close> is what \<open>FetchCDX\<close> returned (an error message or the
  capture lines), \<open>atWait\<close> is the job as the workers left it when \<open>wg.Wait()\<close>
  returned, \<open>finalResult\<close> the map they filled, \<open>hsetErr\<close> and \<open>expireErr\<close> the errors
  of the two store commands (\<open>None\<close> for success) and \<open>elapsed\<close> the time since the
  start of the job.
\<close>

definition RunJob_goroutine ::
  "Job \<Rightarrow> string \<Rightarrow> string \<Rightarrow> string + string list \<Rightarrow> Job \<Rightarrow> (string \<times> string) list
     \<Rightarrow> string option \<Rightarrow> string option \<Rightarrow> int \<Rightarrow> Job" where
  "RunJob_goroutine j url year cdx atWait finalResult hsetErr expireErr elapsed =
     (case cdx of
        Inl err \<Rightarrow> j\<lparr>State := ''ERROR'', Info := CdxFailed url year err\<rparr>
      | Inr captures \<Rightarrow>
          (let j1 = atWait\<lparr>State := ''COMPLETE'', Info := Processed (length captures)\<rparr> in
           if length finalResult \<noteq> 0
           then (case hsetErr of
                   Some err \<Rightarrow> j1\<lparr>Info := StoreFailed url err\<rparr>
                 | None \<Rightarrow>
                     (case expireErr of
                        Some err \<Rightarrow> j1\<lparr>Info := StoreFailed url err\<rparr>
                      | None \<Rightarrow> j1\<lparr>Duration := elapsed\<rparr>))
           else j1\<lparr>Duration := elapsed\<rparr>))"

section \<open>The fingerprint encoder\<close>

text \<open>
  Go's \<open>int\<close> is a 64-bit two's complement integer on the 64-bit targets: the weights
  and the accumulators are \<open>64 word\<close>, read by \<open>sint\<close>, with wrapping \<open>+\<close> and \<open>-\<close>
  and the signed comparisons \<open><s\<close> and \<open>\<le>s\<close>. \<open>big.Int\<close> is \<open>int\<close>, a byte is
  \<open>8 word\<close>. The two run-time panics of the encoder are results of the model. The
  parameter \<open>size\<close> of the source is \<open>sz\<close> here (\<open>size\<close> is a constant of HOL).
\<close>

type_synonym byte = "8 word"

type_synonym go_int = "64 word"

datatype simhash_error = MakeSlicePanic | FillBytesPanic

text \<open>\<open>new(big.Int).SetBytes(buf)\<close>: the bytes read as a big-endian unsigned integer.\<close>

definition SetBytes :: "byte list \<Rightarrow> int" where
  "SetBytes buf = foldl (\<lambda>acc b. acc * 256 + uint b) 0 buf"

text \<open>
  \<open>hashFunc\<close>: the BLAKE2b-512 digest of the bytes of the string, as an integer. The
  digest function belongs to \<open>golang.org/x/crypto\<close> and is the parameter \<open>blake2b512\<close>.
\<close>

definition hashFunc :: "(byte list \<Rightarrow> byte list) \<Rightarrow> string \<Rightarrow> int" where
  "hashFunc blake2b512 data = SetBytes (blake2b512 (map of_char data))"

text \<open>
  The inner loop of \<open>generateSimhash\<close> for one feature with the masked hash \<open>h\<close> and
  the weight \<open>v\<close>: position \<open>i\<close> of the vector goes up by \<open>v\<close> where bit \<open>i\<close> of \<open>h\<close>
  is set, down by \<open>v\<close> where it is not.
\<close>

definition addFeature :: "int \<Rightarrow> go_int \<Rightarrow> nat \<Rightarrow> go_int list \<Rightarrow> go_int list" where
  "addFeature h v sz vector =
     fold (\<lambda>i vec. if bit h i then vec[i := vec ! i + v] else vec[i := vec ! i - v])
       [0..<sz] vector"

text \<open>
  The loop over the feature map. A Go map is iterated in an order that the language does
  not fix; the features are given as the list of (term, weight) entries in the order of
  the iteration (each key once). An entry with \<open>v <= 0\<close> is skipped.
\<close>

definition accumulate ::
  "(byte list \<Rightarrow> byte list) \<Rightarrow> nat \<Rightarrow> (string \<times> go_int) list \<Rightarrow> go_int list \<Rightarrow> go_int list" where
  "accumulate blake2b512 sz features vector =
     fold (\<lambda>(k, v) vec.
             if v \<le>s 0 then vec
             else addFeature (hashFunc blake2b512 k AND (push_bit sz 1 - 1)) v sz vec)
       features vector"

text \<open>The last loop: bit \<open>i\<close> of the value is set where \<open>vector[i] > 0\<close>.\<close>

definition collectBits :: "go_int list \<Rightarrow> nat \<Rightarrow> int" where
  "collectBits vector sz =
     fold (\<lambda>i acc. if 0 <s vector ! i then set_bit i acc else acc) [0..<sz] 0"

text \<open>\<open>generateSimhash\<close>; \<open>make([]int, size)\<close> panics for a negative size.\<close>

definition generateSimhash ::
  "(byte list \<Rightarrow> byte list) \<Rightarrow> (string \<times> go_int) list \<Rightarrow> int \<Rightarrow> simhash_error + int" where
  "generateSimhash blake2b512 features sz =
     (if sz < 0 then Inl MakeSlicePanic
      else Inr (collectBits
                  (accumulate blake2b512 (nat sz) features (replicate (nat sz) 0))
                  (nat sz)))"

text \<open>
  \<open>x.FillBytes(buf)\<close> for \<open>x \<ge> 0\<close> and a buffer of \<open>n\<close> bytes: the big-endian bytes
  of \<open>x\<close>, zero-extended to \<open>n\<close> bytes; it panics when \<open>x\<close> does not fit.
\<close>

definition FillBytes :: "int \<Rightarrow> nat \<Rightarrow> simhash_error + byte list" where
  "FillBytes x n =
     (if x < 256 ^ n
      then Inr (map (\<lambda>k. word_of_int (x div 256 ^ (n - 1 - k))) [0..<n])
      else Inl FillBytesPanic)"

text \<open>
  The loop \<open>for i, j := 0, len(bytes)-1; i < j; i, j = i+1, j-1\<close> that swaps
  \<open>bytes[i]\<close> and \<open>bytes[j]\<close>.
\<close>

function swapLoop :: "'a list \<Rightarrow> int \<Rightarrow> int \<Rightarrow> 'a list" where
  "swapLoop bytes i j =
     (if i < j
      then swapLoop (bytes[nat i := bytes ! nat j, nat j := bytes ! nat i]) (i + 1) (j - 1)
      else bytes)"
  by pat_completeness auto
termination
  by (relation "measure (\<lambda>(bytes, i, j). nat (j - i))") auto

declare swapLoop.simps [simp del]

text \<open>
  \<open>packSimhashToBytes\<close>. Go's \<open>size / 8\<close> truncates towards zero; a negative number
  of bytes makes \<open>make\<close> panic.
\<close>

definition packSimhashToBytes :: "int \<Rightarrow> int \<Rightarrow> simhash_error + byte list" where
  "packSimhashToBytes simhash sz =
     (let sizeInBytes = (if sz < 0 then - ((- sz) div 8) else sz div 8) in
      if sizeInBytes < 0 then Inl MakeSlicePanic
      else (case FillBytes simhash (nat sizeInBytes) of
              Inl e \<Rightarrow> Inl e
            | Inr bytes \<Rightarrow> Inr (swapLoop bytes 0 (int (length bytes) - 1))))"

text \<open>
  \<open>base64.StdEncoding\<close> (RFC 4648, with padding), of the standard library:
  \<open>EncodeToString\<close> turns each group of three bytes into four characters of the
  alphabet, a last group of one or two bytes into two or three characters and padding.
  \<open>DecodeString\<close> is its inverse on text without line breaks: \<open>None\<close> for text that is
  not base64.
\<close>

definition encodeStd :: string where
  "encodeStd = ''ABCDEFGHIJKLMNOPQRSTUVWXYZabcdefghijklmnopqrstuvwxyz0123456789+/''"

definition sextet :: "nat \<Rightarrow> nat \<Rightarrow> char" where
  "sextet val k = encodeStd ! (val div 64 ^ (3 - k) mod 64)"

fun EncodeToString :: "byte list \<Rightarrow> string" where
  "EncodeToString (a # b # c # src) =
     (let val = unat a * 65536 + unat b * 256 + unat c
      in [sextet val 0, sextet val 1, sextet val 2, sextet val 3] @ EncodeToString src)"
| "EncodeToString [a, b] =
     (let val = unat a * 65536 + unat b * 256
      in [sextet val 0, sextet val 1, sextet val 2, CHR ''=''])"
| "EncodeToString [a] =
     (let val = unat a * 65536
      in [sextet val 0, sextet val 1, CHR ''='', CHR ''=''])"
| "EncodeToString [] = []"

fun indexOf :: "'a \<Rightarrow> 'a list \<Rightarrow> nat option" where
  "indexOf c [] = None"
| "indexOf c (x # xs) = (if x = c then Some 0 else map_option Suc (indexOf c xs))"

definition decodeChar :: "char \<Rightarrow> nat option" where
  "decodeChar c = indexOf c encodeStd"

fun DecodeString :: "string \<Rightarrow> byte list option" where
  "DecodeString (c1 # c2 # c3 # c4 # s) =
     (case decodeChar c1 of None \<Rightarrow> None | Some s1 \<Rightarrow>
      case decodeChar c2 of None \<Rightarrow> None | Some s2 \<Rightarrow>
        if s = [] \<and> c3 = CHR ''='' \<and> c4 = CHR ''=''
        then Some [word_of_nat ((s1 * 262144 + s2 * 4096) div 65536)]
        else (case decodeChar c3 of None \<Rightarrow> None | Some s3 \<Rightarrow>
          if s = [] \<and> c4 = CHR ''=''
          then Some [word_of_nat ((s1 * 262144 + s2 * 4096 + s3 * 64) div 65536),
                     word_of_nat ((s1 * 262144 + s2 * 4096 + s3 * 64) div 256)]
          else (case decodeChar c4 of None \<Rightarrow> None | Some s4 \<Rightarrow>
            case DecodeString s of None \<Rightarrow> None | Some dst \<Rightarrow>
              Some (word_of_nat ((s1 * 262144 + s2 * 4096 + s3 * 64 + s4) div 65536)
                    # word_of_nat ((s1 * 262144 + s2 * 4096 + s3 * 64 + s4) div 256)
                    # word_of_nat (s1 * 262144 + s2 * 4096 + s3 * 64 + s4)
                    # dst))))"
| "DecodeString [] = Some []"
| "DecodeString s = None"

definition encodeSimhashToBase64 :: "int \<Rightarrow> int \<Rightarrow> simhash_error + string" where
  "encodeSimhashToBase64 simhash sz =
     (case packSimhashToBytes simhash sz of
        Inl e \<Rightarrow> Inl e
      | Inr bytes \<Rightarrow> Inr (EncodeToString bytes))"

definition GetSimhash ::
  "(byte list \<Rightarrow> byte list) \<Rightarrow> (string \<times> go_int) list \<Rightarrow> int \<Rightarrow> simhash_error + string" where
  "GetSimhash blake2b512 features sz =
     (case generateSimhash blake2b512 features sz of
        Inl e \<Rightarrow> Inl e
      | Inr simhash \<Rightarrow> encodeSimhashToBase64 simhash sz)"

section \<open>The feature extractor: counting the tokens\<close>

text \<open>
  The end of \<open>extractHTMLFeatures\<close>, after \<open>sort.Strings(words)\<close>. The inner loop
  extends \<open>count\<close> while the word at \<open>i + count\<close> is the word at \<open>i\<close> (Go's \<open>&&\<close>
  reads \<open>words[i+count]\<close> only in range); the outer loop stores the count of the run
  and goes on after it.
\<close>

function countRun :: "string list \<Rightarrow> nat \<Rightarrow> string \<Rightarrow> nat \<Rightarrow> nat" where
  "countRun words i word count =
     (if i + count < length words \<and> words ! (i + count) = word
      then countRun words i word (count + 1)
      else count)"
  by pat_completeness auto
termination
  by (relation "measure (\<lambda>(words, i, word, count). length words - (i + count))") auto

declare countRun.simps [simp del]

lemma countRun_ge: "count \<le> countRun words i word count"
proof (induction words i word count rule: countRun.induct)
  case (1 words i word count)
  show ?case
  proof (cases "i + count < length words \<and> words ! (i + count) = word")
    case True
    then show ?thesis using 1 by (subst countRun.simps) simp
  next
    case False
    then show ?thesis by (subst countRun.simps) auto
  qed
qed

function countWords :: "string list \<Rightarrow> nat \<Rightarrow> (string \<rightharpoonup> int) \<Rightarrow> (string \<rightharpoonup> int)" where
  "countWords words i wordCounts =
     (if i < length words
      then countWords words (i + countRun words i (words ! i) 1)
             (wordCounts(words ! i \<mapsto> int (countRun words i (words ! i) 1)))
      else wordCounts)"
  by pat_completeness auto
termination
proof (relation "measure (\<lambda>(words, i, wordCounts). length words - i)")
  show "wf (measure (\<lambda>(words, i, wordCounts). length words - i))" by simp
next
  fix words :: "string list" and i :: nat and wordCounts :: "string \<rightharpoonup> int"
  assume "i < length words"
  moreover have "1 \<le> countRun words i (words ! i) 1" by (rule countRun_ge)
  ultimately show "((words, i + countRun words i (words ! i) 1,
                     wordCounts(words ! i \<mapsto> int (countRun words i (words ! i) 1))),
                    (words, i, wordCounts))
                   \<in> measure (\<lambda>(words, i, wordCounts). length words - i)"
    by simp
qed

declare countWords.simps [simp del]

text \<open>The weight map of the extractor for a list of tokens.\<close>

definition wordCountsOf :: "string list \<Rightarrow> (string \<rightharpoonup> int)" where
  "wordCountsOf words = countWords (sort words) 0 Map.empty"

text \<open>
  Plain frequency counting, as the specification words it and as the alternative that
  the source keeps in a comment (\<open>for _, word := range words { wordCounts[word]++ }\<close>):
  one pass over the tokens in their order, a missing key counting as 0.
\<close>

definition frequencyCount :: "string list \<Rightarrow> (string \<rightharpoonup> int)" where
  "frequencyCount words =
     fold (\<lambda>word wordCounts.
             wordCounts(word \<mapsto> (case wordCounts word of None \<Rightarrow> 0 | Some c \<Rightarrow> c) + 1))
       words Map.empty"

section \<open>Example data\<close>

text \<open>
  A store with 25 captures of January 2023 under the key of \<open>example.com\<close>, one per
  day, all with the fingerprint \<open>AAA\<close>; and a store that also holds a field named by
  the bare year.
\<close>

definition stamp :: "nat \<Rightarrow> string" where
  "stamp d = ''202301'' @ [''0123456789'' ! (d div 10), ''0123456789'' ! (d mod 10)] @ ''120000''"

definition stamps25 :: "string list" where
  "stamps25 = map stamp [1..<26]"

definition store25 :: redis_client where
  "store25 =
     \<lparr>reachable = True,
      hashes = (\<lambda>key. if key = ''com,example'' then map (\<lambda>ts. (ts, ''AAA'')) stamps25 else [])\<rparr>"

definition store_year_field :: redis_client where
  "store_year_field =
     \<lparr>reachable = True,
      hashes = (\<lambda>key. if key = ''com,example''
                      then [(''20230215030303'', ''BBB''), (''2023'', ''x''), (''20230101010101'', ''AAA'')]
                      else [])\<rparr>"

text \<open>A network that fails twice and answers from the third request on.\<close>

definition page_response :: http_response where
  "page_response =
     \<lparr>contentEncoding = [], contentType = ''text/html'', body = ''<p>hello</p>''\<rparr>"

definition answers_third :: "nat \<Rightarrow> http_response option" where
  "answers_third k = (if k < 2 then None else Some page_response)"

text \<open>
  A small feature set: two terms with a positive weight and one that is skipped.
\<close>

definition fs3 :: "(string \<times> go_int) list" where
  "fs3 = [(''alpha'', 3), (''beta'', 2), (''gamma'', - 5)]"

text \<open>
  A stand-in for the digest in the examples: 64 bytes, each the sum of the bytes of the
  message and of its position.
\<close>

definition toy_digest :: "byte list \<Rightarrow> byte list" where
  "toy_digest msg = map (\<lambda>k. sum_list msg + word_of_nat k) [0..<64]"

section \<open>Properties of the query layer\<close>

lemma scanYear_hit: "year \<in> set tss \<Longrightarrow> scanYear year tss acc = Inl NoCaptures"
  by (induction tss arbitrary: acc) auto

text \<open>
  Claim C10. If the record stored for the key of the URL has a field equal to the
  requested year, the query by year ends with \<open>NO_CAPTURES\<close>, whatever other fields the
  record has (also fields that start with the year), and whatever the page and the page
  size. The theorem holds for every non-empty year string, the four-character ones among
  them.
\<close>

theorem YearSimhash_year_field:
  assumes "url \<noteq> []" and "year \<noteq> []"
    and "year \<in> fst ` set (hashes client (Surt url))"
  shows "YearSimhash conv client url year page snapshotsPerPage = Inl NoCaptures"
proof (cases "reachable client")
  case False
  then show ?thesis using assms by (simp add: YearSimhash_def HKeys_def)
next
  case True
  have "year \<in> set (sort (map fst (hashes client (Surt url))))" using assms(3) by simp
  then have "scanYear year (sort (map fst (hashes client (Surt url)))) [] = Inl NoCaptures"
    by (rule scanYear_hit)
  then show ?thesis using assms True by (auto simp add: YearSimhash_def HKeys_def Let_def)
qed

lemma Surt_example: "Surt ''example.com'' = ''com,example''"
  by code_simp

theorem YearSimhash_year_field_witness:
  "''2023'' \<in> fst ` set (hashes store_year_field (Surt ''example.com''))
   \<and> HasPrefix ''20230101010101'' ''2023''
   \<and> ''20230101010101'' \<in> fst ` set (hashes store_year_field (Surt ''example.com''))
   \<and> YearSimhash conv_amd64 store_year_field ''example.com'' ''2023'' (- 1) (- 1) = Inl NoCaptures"
proof -
  have h: "''2023'' \<in> fst ` set (hashes store_year_field (Surt ''example.com''))"
    by (simp add: Surt_example store_year_field_def)
  have "YearSimhash conv_amd64 store_year_field ''example.com'' ''2023'' (- 1) (- 1) = Inl NoCaptures"
    by (rule YearSimhash_year_field [OF _ _ h]) simp_all
  then show ?thesis using h by (simp add: Surt_example store_year_field_def HasPrefix_def)
qed

lemma totalPagesOf_div:
  "perPage \<noteq> 0 \<Longrightarrow> totalPagesOf conv n perPage = - ((- n) div perPage)"
  by (simp add: totalPagesOf_def ceiling_divide_eq_div)

lemma pageOf_positive:
  assumes n: "1 \<le> n" and p: "1 \<le> p"
  shows "pageOf conv ts n p =
           Inr (take (nat n) (drop (nat ((min p (- ((- int (length ts)) div n)) - 1) * n)) ts))"
proof -
  define L where "L = int (length ts)"
  define T where "T = - ((- L) div n)"
  have tp: "totalPagesOf conv (int (length ts)) n = T"
    using n by (simp add: totalPagesOf_div T_def L_def)
  have pne: "p \<noteq> - 1" using p by simp
  show ?thesis
  proof (cases "0 < T")
    case False
    have "L \<le> 0"
    proof (rule ccontr)
      assume "\<not> L \<le> 0"
      then have "- L < 0" by simp
      then have "(- L) div n < 0" using n by (simp add: div_neg_pos_less0)
      then show False using False by (simp add: T_def)
    qed
    then have "ts = []" by (simp add: L_def)
    then show ?thesis using pne tp False by (simp add: pageOf_def Let_def T_def L_def)
  next
    case True
    define q where "q = min p T"
    have q1: "1 \<le> q" using p True by (simp add: q_def)
    have qT: "q \<le> T" by (simp add: q_def)
    have "(T - 1) * n < L"
    proof -
      have "(- L) div n * n + (- L) mod n = - L" by simp
      moreover have "(- L) mod n < n" using n by simp
      ultimately have "(- L) div n * n > - L - n" by linarith
      then show ?thesis by (simp add: T_def algebra_simps)
    qed
    moreover have "(q - 1) * n \<le> (T - 1) * n" using qT n by (simp add: mult_right_mono)
    ultimately have sL: "(q - 1) * n < L" by linarith
    have s0: "0 \<le> (q - 1) * n" using q1 n by simp
    have se: "(q - 1) * n \<le> min (q * n) L" using sL n by (simp add: algebra_simps)
    have "slice ts ((q - 1) * n) (min (q * n) L)
            = Inr (take (nat (min (q * n) L - (q - 1) * n)) (drop (nat ((q - 1) * n)) ts))"
      using s0 se by (simp add: slice_def L_def)
    also have "take (nat (min (q * n) L - (q - 1) * n)) (drop (nat ((q - 1) * n)) ts)
                 = take (nat n) (drop (nat ((q - 1) * n)) ts)"
    proof (cases "q * n \<le> L")
      case True
      then have "min (q * n) L - (q - 1) * n = n" by (simp add: algebra_simps)
      then show ?thesis by simp
    next
      case False
      then have m: "min (q * n) L = L" by simp
      have len: "length (drop (nat ((q - 1) * n)) ts) = nat (L - (q - 1) * n)"
        using s0 by (simp add: L_def nat_diff_distrib')
      have "nat (L - (q - 1) * n) \<le> nat n" using False by (simp add: algebra_simps)
      then show ?thesis using len m by simp
    qed
    finally have "slice ts ((q - 1) * n) (min (q * n) L)
                    = Inr (take (nat n) (drop (nat ((q - 1) * n)) ts))" .
    then show ?thesis using pne tp True
      by (simp add: pageOf_def Let_def q_def T_def L_def)
  qed
qed

lemma pageOf_unpaged:
  assumes "p = - 1 \<or> n < 0"
  shows "pageOf conv ts n p = Inr ts"
proof (cases "p = - 1")
  case True
  then show ?thesis by (simp add: pageOf_def)
next
  case False
  then have n: "n < 0" using assms by simp
  have "0 \<le> (- int (length ts)) div n" using n by (simp add: neg_imp_zdiv_nonneg_iff)
  then have "\<not> 0 < totalPagesOf conv (int (length ts)) n"
    using n by (simp add: totalPagesOf_div)
  then show ?thesis by (simp add: pageOf_def Let_def)
qed

lemma pageOf_zero:
  "conv NaN \<le> 0 \<Longrightarrow> conv PosInf \<le> 0 \<Longrightarrow> pageOf conv ts 0 p = Inr ts"
  by (simp add: pageOf_def Let_def totalPagesOf_def)

lemma fetchResults_present:
  assumes "reachable client" and "ts \<noteq> []"
    and "set ts \<subseteq> fst ` set (hashes client key)"
  shows "map Timestamp (fetchResults client key ts) = ts"
proof -
  have "set ts \<subseteq> fst ` set h \<Longrightarrow>
        map Timestamp (concat (map (\<lambda>(t, r). case r of None \<Rightarrow> []
                | Some s \<Rightarrow> [\<lparr>Timestamp = t, Simhash = s\<rparr>]) (zip ts (map (map_of h) ts)))) = ts"
    for h :: "(string \<times> string) list"
  proof (induction ts)
    case Nil
    then show ?case by simp
  next
    case (Cons t ts)
    then obtain v where "map_of h t = Some v"
      by (metis list.set_intros(1) map_of_eq_None_iff not_Some_eq subsetD)
    then show ?case using Cons by simp
  qed
  then show ?thesis using assms by (simp add: fetchResults_def HMGet_def)
qed

text \<open>
  What \<open>handleResults\<close> fetches, for every input:
  \<^item> for a page size \<open>n \<ge> 1\<close> and a page \<open>p \<ge> 1\<close>, the page fetched is the \<open>q\<close>-th
    group of up to \<open>n\<close> timestamps, where \<open>q\<close> is \<open>p\<close> clamped to the number of pages
    \<open>\<lceil>length / n\<rceil>\<close>;
  \<^item> for a negative page size, or the page \<open>-1\<close> that stands for no page, all
    timestamps are fetched;
  \<^item> for the page size 0 all timestamps are fetched where the platform converts a
    non-finite float to an \<open>int\<close> that is not positive;
  \<^item> on a reachable store that holds every timestamp of the page, the results are the
    timestamps of the page, in order.
\<close>

theorem handleResults_pages:
  "(1 \<le> n \<and> 1 \<le> p \<longrightarrow>
      handleResults conv client ts key n p =
        Inr (fetchResults client key
               (take (nat n)
                  (drop (nat ((min p \<lceil>real (length ts) / real_of_int n\<rceil> - 1) * n)) ts))))
   \<and> (n < 0 \<or> p = - 1 \<longrightarrow>
        handleResults conv client ts key n p = Inr (fetchResults client key ts))
   \<and> (conv NaN \<le> 0 \<and> conv PosInf \<le> 0 \<longrightarrow>
        handleResults conv client ts key 0 p = Inr (fetchResults client key ts))
   \<and> (reachable client \<and> pg \<noteq> [] \<and> set pg \<subseteq> fst ` set (hashes client key) \<longrightarrow>
        map Timestamp (fetchResults client key pg) = pg)"
proof -
  have c: "\<lceil>real (length ts) / real_of_int n\<rceil> = - ((- int (length ts)) div n)"
    using ceiling_divide_eq_div [of "int (length ts)" n] by simp
  have "1 \<le> n \<and> 1 \<le> p \<longrightarrow>
      handleResults conv client ts key n p =
        Inr (fetchResults client key
               (take (nat n)
                  (drop (nat ((min p \<lceil>real (length ts) / real_of_int n\<rceil> - 1) * n)) ts)))"
    unfolding c by (simp add: handleResults_def pageOf_positive)
  moreover have "n < 0 \<or> p = - 1 \<longrightarrow>
        handleResults conv client ts key n p = Inr (fetchResults client key ts)"
    using pageOf_unpaged [of p n conv ts] by (auto simp add: handleResults_def)
  moreover have "conv NaN \<le> 0 \<and> conv PosInf \<le> 0 \<longrightarrow>
        handleResults conv client ts key 0 p = Inr (fetchResults client key ts)"
    by (simp add: handleResults_def pageOf_zero)
  moreover have "reachable client \<and> pg \<noteq> [] \<and> set pg \<subseteq> fst ` set (hashes client key) \<longrightarrow>
        map Timestamp (fetchResults client key pg) = pg"
    using fetchResults_present by blast
  ultimately show ?thesis by blast
qed

lemma stamps25_length: "length stamps25 = 25"
  by (simp add: stamps25_def)

lemma fetch_last_page:
  "fetchResults store25 ''com,example'' (drop 20 stamps25) =
     map (\<lambda>ts. \<lparr>Timestamp = ts, Simhash = ''AAA''\<rparr>) (drop 20 stamps25)"
  by code_simp

lemma fetch_all_pages:
  "fetchResults store25 ''com,example'' stamps25 =
     map (\<lambda>ts. \<lparr>Timestamp = ts, Simhash = ''AAA''\<rparr>) stamps25"
  by code_simp

theorem handleResults_pages_witness:
  "handleResults conv_amd64 store25 stamps25 ''com,example'' 10 3 =
     Inr (map (\<lambda>ts. \<lparr>Timestamp = ts, Simhash = ''AAA''\<rparr>) (drop 20 stamps25))
   \<and> handleResults conv_amd64 store25 stamps25 ''com,example'' 10 99 =
     Inr (map (\<lambda>ts. \<lparr>Timestamp = ts, Simhash = ''AAA''\<rparr>) (drop 20 stamps25))
   \<and> handleResults conv_amd64 store25 stamps25 ''com,example'' (- 1) 0 =
     Inr (map (\<lambda>ts. \<lparr>Timestamp = ts, Simhash = ''AAA''\<rparr>) stamps25)
   \<and> handleResults conv_amd64 store25 stamps25 ''com,example'' 0 1 =
     Inr (map (\<lambda>ts. \<lparr>Timestamp = ts, Simhash = ''AAA''\<rparr>) stamps25)"
proof -
  have a: "handleResults conv_amd64 store25 stamps25 ''com,example'' 10 3 =
             Inr (fetchResults store25 ''com,example'' (drop 20 stamps25))"
    using handleResults_pages [of 10 3 conv_amd64 store25 stamps25 "''com,example''"]
    by (simp add: stamps25_length)
  have b: "handleResults conv_amd64 store25 stamps25 ''com,example'' 10 99 =
             Inr (fetchResults store25 ''com,example'' (drop 20 stamps25))"
    using handleResults_pages [of 10 99 conv_amd64 store25 stamps25 "''com,example''"]
    by (simp add: stamps25_length)
  have c: "handleResults conv_amd64 store25 stamps25 ''com,example'' (- 1) 0 =
             Inr (fetchResults store25 ''com,example'' stamps25)"
    using handleResults_pages [of "- 1" 0 conv_amd64 store25 stamps25 "''com,example''"]
    by simp
  have d: "handleResults conv_amd64 store25 stamps25 ''com,example'' 0 1 =
             Inr (fetchResults store25 ''com,example'' stamps25)"
    using handleResults_pages [of 0 1 conv_amd64 store25 stamps25 "''com,example''"]
    by (simp add: conv_amd64_def)
  show ?thesis using a b c d by (simp add: fetch_last_page fetch_all_pages)
qed

text \<open>
  Claim C5. Pagination returns the \<open>p\<close>-th slice for a page size of at least 1, with
  a page beyond the last one clamped to the last, and all results for a negative page
  size or the page \<open>-1\<close> (the theorem above). The page size 0 is a case the code
  misses: the number of pages is then the conversion of \<open>+Inf\<close> to \<open>int\<close>, which
  Go leaves to the implementation. Where the conversion saturates (arm64) the page is
  \<open>timestamps[0:0]\<close>, \<open>HMGet\<close> is called without a field, and nothing is
  returned, where the claim says all results; where it yields the smallest \<open>int\<close>
  (amd64) all results are returned.
\<close>

theorem handleResults_perPage_zero:
  "handleResults conv_arm64 store25 stamps25 ''com,example'' 0 1 = Inr []
   \<and> handleResults conv_amd64 store25 stamps25 ''com,example'' 0 1 =
       Inr (map (\<lambda>ts. \<lparr>Timestamp = ts, Simhash = ''AAA''\<rparr>) stamps25)
   \<and> handleResults conv_arm64 store25 stamps25 ''com,example'' (- 1) 1 =
       Inr (map (\<lambda>ts. \<lparr>Timestamp = ts, Simhash = ''AAA''\<rparr>) stamps25)
   \<and> length stamps25 = 25"
  by code_simp

lemma TimestampSimHash_absent:
  assumes "url \<noteq> []" and "timestamp \<noteq> []" and "timeParse ''20060102150405'' timestamp"
    and "reachable client" and "map_of (hashes client (Surt url)) timestamp = None"
  shows "TimestampSimHash timeParse client url timestamp = Inl (LoadError RedisNil)"
  using assms by (simp add: TimestampSimHash_def validateTimestamp_def HGet_def)

text \<open>
  The fallback of \<open>TimestampSimHash\<close> as the code can reach it: the timestamp is a
  field stored with the empty string, and the year is a field with a value that is not
  empty.
\<close>

lemma TimestampSimHash_fallback:
  "TimestampSimHash timeParse
     \<lparr>reachable = True,
      hashes = (\<lambda>key. if key = ''com,example''
                      then [(''20230303030303'', []), (''2023'', ''x'')] else [])\<rparr>
     ''example.com'' ''20230303030303'' =
     (if timeParse ''20060102150405'' ''20230303030303''
      then Inr [(''status'', ''error''), (''message'', ''NO_CAPTURES'')] else Inl InvalidInput)"
  by (simp add: TimestampSimHash_def validateTimestamp_def Surt_example HGet_def)

text \<open>
  Claim C6. A field that is absent makes \<open>HGet\<close> return the error \<open>redis.Nil\<close>, and
  \<open>TimestampSimHash\<close> returns at once with the error that wraps it: the fallback to the
  year prefix is reached only for a field stored with the empty string. Here the record
  of \<open>example.com\<close> holds the field \<open>2023\<close> but not the timestamp asked for (the claim:
  \<open>NO_CAPTURES\<close>), or neither that timestamp nor the field \<open>2022\<close> (the claim:
  \<open>CAPTURE_NOT_FOUND\<close>); both queries end with the load error, for every timestamp
  parser that accepts the timestamp.
\<close>

theorem TimestampSimHash_absent_timestamp:
  "TimestampSimHash timeParse store_year_field ''example.com'' ''20230303030303'' =
     (if timeParse ''20060102150405'' ''20230303030303''
      then Inl (LoadError RedisNil) else Inl InvalidInput)
   \<and> TimestampSimHash timeParse store_year_field ''example.com'' ''20220303030303'' =
     (if timeParse ''20060102150405'' ''20220303030303''
      then Inl (LoadError RedisNil) else Inl InvalidInput)
   \<and> TimestampSimHash timeParse store_year_field ''example.com'' ''20230101010101'' =
     (if timeParse ''20060102150405'' ''20230101010101''
      then Inr [(''simhash'', ''AAA'')] else Inl InvalidInput)"
  by (simp add: TimestampSimHash_def validateTimestamp_def Surt_example HGet_def
        store_year_field_def)

section \<open>Properties of the download\<close>

lemma retryLoop_requests:
  "fst (snd (retryLoop reqOK transport jitter i sent slept)) \<le> sent + (MAX_RETRIES - i)"
proof (induction reqOK transport jitter i sent slept rule: retryLoop.induct)
  case (1 reqOK transport jitter i sent slept)
  show ?case
  proof (cases "i < MAX_RETRIES")
    case False
    then show ?thesis by (simp add: retryLoop.simps)
  next
    case lt: True
    show ?thesis
    proof (cases reqOK)
      case False
      then show ?thesis
        using lt "1.IH"(2) [OF lt] by (subst retryLoop.simps) simp
    next
      case ok: True
      show ?thesis
      proof (cases "transport sent")
        case None
        then show ?thesis
          using lt ok "1.IH"(1) [OF lt ok None] by (subst retryLoop.simps) simp
      next
        case (Some resp)
        then show ?thesis using lt ok by (subst retryLoop.simps) simp
      qed
    qed
  qed
qed

lemma requestsSent_bound: "requestsSent reqOK transport jitter \<le> MAX_RETRIES"
  using retryLoop_requests [of reqOK transport jitter 0 0 "[]"] by (simp add: requestsSent_def)

text \<open>
  Claim C7. The loop of \<open>DownloadCapture\<close> runs \<open>MAX_RETRIES = 2\<close> times, so it sends
  two requests at most: one retry, where the claim has two (three requests in all). On a
  network that fails twice and would answer the third request, the download gives up
  after two requests and returns the empty string; the two sleeps before the attempts
  are 1000 and 2000 microseconds plus jitter. On a network that answers the first request,
  one request is sent.
\<close>

theorem DownloadCapture_two_requests:
  "requestsSent True answers_third jitter = 2
   \<and> DownloadCapture gunzip inflate True answers_third jitter = []
   \<and> answers_third 2 = Some page_response
   \<and> snd (snd (retryLoop True answers_third jitter 0 0 [])) =
       [1000 + jitter 0 mod 2000, 2000 + jitter 1 mod 2000]
   \<and> requestsSent True (\<lambda>k. Some page_response) jitter = 1"
  by (simp add: requestsSent_def DownloadCapture_def retryLoop.simps MAX_RETRIES_def
        answers_third_def exponentialBackoff_def)

text \<open>
  The limit holds for a response without compression, and only there: a gzip response
  whose body the decompressor accepts whole and rejects when cut at the limit (as a
  truncated gzip stream is) yields the text of the whole body.
\<close>

lemma decodeResponse_plain_limited:
  assumes "\<not> Contains (contentEncoding resp) ''gzip''"
    and "\<not> Contains (contentEncoding resp) ''deflate''"
  shows "decodeResponse gunzip inflate resp =
         decodeResponse gunzip inflate (resp\<lparr>body := take MAP_CAPTURE_DOWNLOAD (body resp)\<rparr>)"
  using assms by (simp add: decodeResponse_def readBody_def)

lemma decodeResponse_gzip_whole_body:
  assumes "Contains (contentEncoding resp) ''gzip''"
    and "Contains (ToLower (contentType resp)) ''text''"
    and "gunzip (body resp) = Some data"
    and "gunzip (take MAP_CAPTURE_DOWNLOAD (body resp)) = None"
  shows "decodeResponse gunzip inflate resp = data"
    and "decodeResponse gunzip inflate (resp\<lparr>body := take MAP_CAPTURE_DOWNLOAD (body resp)\<rparr>) = []"
  using assms by (simp_all add: decodeResponse_def readBody_def)

text \<open>
  Claim C8. Only a response without compression is read through the limit of
  \<open>MAP_CAPTURE_DOWNLOAD\<close> bytes. For a gzip or deflate response the decompressor reads
  the body itself, so the text returned is what the decompressor makes of the whole body,
  here a body of 1,000,000 bytes followed by any further bytes \<open>rest\<close>.
\<close>

theorem decodeResponse_compressed_unlimited:
  "decodeResponse gunzip inflate
     \<lparr>contentEncoding = ''gzip'', contentType = ''text/html'',
      body = replicate 1000000 c @ rest\<rparr> =
     (case gunzip (replicate 1000000 c @ rest) of None \<Rightarrow> [] | Some data \<Rightarrow> data)
   \<and> decodeResponse gunzip inflate
     \<lparr>contentEncoding = ''deflate'', contentType = ''text/html'',
      body = replicate 1000000 c @ rest\<rparr> =
     (case inflate (replicate 1000000 c @ rest) of None \<Rightarrow> [] | Some data \<Rightarrow> data)
   \<and> decodeResponse gunzip inflate
     \<lparr>contentEncoding = [], contentType = ''text/html'',
      body = replicate 1000000 c @ rest\<rparr> =
     replicate 1000000 c"
  by (simp add: decodeResponse_def readBody_def HasPrefix_def ToLower_def
        MAP_CAPTURE_DOWNLOAD_def split: option.split)

section \<open>Properties of the job\<close>

text \<open>
  Claim C9. After a listing that succeeded, the goroutine sets the state to
  \<open>COMPLETE\<close> and a failing store command leaves it so; but it returns right after
  logging the failure (of \<open>HSet\<close> or of \<open>Expire\<close>), before the assignment of
  \<open>Duration\<close>. For a job started from \<open>NewJobQueue\<close>, with one fingerprint computed and
  the store failing, \<open>Duration\<close> is still 0 at the end, whatever time has elapsed; it is
  recorded when the store commands succeed or the result map is empty.
\<close>

theorem RunJob_store_failure_no_duration:
  "State (RunJob_goroutine j url year (Inr captures)
            (RunJob_start NewJobQueue jobID url year) [(ts, simhash)] (Some err) expireErr elapsed)
     = ''COMPLETE''
   \<and> Duration (RunJob_goroutine j url year (Inr captures)
            (RunJob_start NewJobQueue jobID url year) [(ts, simhash)] (Some err) expireErr elapsed)
     = 0
   \<and> Duration (RunJob_goroutine j url year (Inr captures)
            (RunJob_start NewJobQueue jobID url year) [(ts, simhash)] None (Some err) elapsed)
     = 0
   \<and> Duration (RunJob_goroutine j url year (Inr captures)
            (RunJob_start NewJobQueue jobID url year) [(ts, simhash)] None None elapsed)
     = elapsed
   \<and> Duration (RunJob_goroutine j url year (Inr captures)
            (RunJob_start NewJobQueue jobID url year) [] hsetErr expireErr elapsed)
     = elapsed"
  by (simp add: RunJob_goroutine_def RunJob_start_def NewJobQueue_def)

section \<open>Properties of the feature extractor\<close>

lemma countRun_takeWhile:
  "countRun ws i w c = c + length (takeWhile (\<lambda>x. x = w) (drop (i + c) ws))"
proof (induction ws i w c rule: countRun.induct)
  case (1 ws i w c)
  show ?case
  proof (cases "i + c < length ws")
    case False
    then show ?thesis by (subst countRun.simps) simp
  next
    case lt: True
    then have d: "drop (i + c) ws = ws ! (i + c) # drop (i + (c + 1)) ws"
      by (simp add: Cons_nth_drop_Suc)
    show ?thesis
    proof (cases "ws ! (i + c) = w")
      case True
      then show ?thesis
        using lt 1 by (subst countRun.simps) (simp add: d)
    next
      case False
      then show ?thesis
        using lt by (subst countRun.simps) (simp add: d)
    qed
  qed
qed

lemma frequency_fold:
  "fold (\<lambda>word wordCounts.
           wordCounts(word \<mapsto> (case wordCounts word of None \<Rightarrow> 0 | Some c \<Rightarrow> c) + 1)) ws m
     = (\<lambda>w. if w \<in> set ws
             then Some ((case m w of None \<Rightarrow> 0 | Some c \<Rightarrow> c) + int (count_list ws w))
             else m w)"
proof (induction ws arbitrary: m)
  case Nil
  then show ?case by simp
next
  case (Cons a ws)
  show ?case
    unfolding fold_Cons comp_def Cons.IH by (rule ext) auto
qed

lemma frequencyCount_count:
  "frequencyCount ws = (\<lambda>w. if w \<in> set ws then Some (int (count_list ws w)) else None)"
  unfolding frequencyCount_def frequency_fold by (rule ext) simp

lemma dropWhile_sorted_notin:
  fixes w :: "'a :: linorder"
  shows "sorted (w # ys) \<Longrightarrow> w \<notin> set (dropWhile (\<lambda>x. x = w) ys)"
proof (induction ys)
  case Nil
  then show ?case by simp
next
  case (Cons y ys)
  show ?case
  proof (cases "y = w")
    case True
    then show ?thesis using Cons by simp
  next
    case False
    then have "w < y" using Cons.prems by auto
    moreover have "\<forall>z \<in> set ys. y \<le> z" using Cons.prems by simp
    ultimately have "w \<notin> set ys" by auto
    then show ?thesis using False by simp
  qed
qed

lemma count_list_takeWhile_eq:
  "count_list (takeWhile (\<lambda>x. x = w) ys) w = length (takeWhile (\<lambda>x. x = w) ys)"
  by (induction ys) simp_all

lemma count_list_notin: "w \<notin> set ys \<Longrightarrow> count_list ys w = 0"
  by (induction ys) auto

lemma count_list_app: "count_list (xs @ ys) w = count_list xs w + count_list ys w"
  by (induction xs) simp_all

lemma takeWhile_eq_subset: "set (takeWhile (\<lambda>x. x = w) ys) \<subseteq> {w}"
  by (induction ys) auto

lemma countWords_sorted:
  assumes "sorted ws"
  shows "i \<le> length ws \<Longrightarrow>
         (\<forall>a \<in> set (take i ws). \<forall>b \<in> set (drop i ws). a \<noteq> b) \<Longrightarrow>
         countWords ws i m =
           (\<lambda>v. if v \<in> set (drop i ws) then Some (int (count_list ws v)) else m v)"
  using assms
proof (induction ws i m rule: countWords.induct)
  case (1 ws i m)
  show ?case
  proof (cases "i < length ws")
    case False
    then show ?thesis using "1.prems" by (subst countWords.simps) simp
  next
    case True
    define w where "w = ws ! i"
    define tw where "tw = takeWhile (\<lambda>x. x = w) (drop (Suc i) ws)"
    define dw where "dw = dropWhile (\<lambda>x. x = w) (drop (Suc i) ws)"
    define c where "c = countRun ws i w 1"
    have c: "c = 1 + length tw"
      by (simp add: c_def countRun_takeWhile tw_def)
    have rest: "drop (Suc i) ws = tw @ dw" by (simp add: tw_def dw_def)
    have di: "drop i ws = w # tw @ dw"
      using Cons_nth_drop_Suc [OF True] rest by (simp add: w_def)
    have "drop (i + c) ws = drop (length tw) (drop (Suc i) ws)" by (simp add: c add.commute)
    then have dic: "drop (i + c) ws = dw" by (simp add: rest)
    have "take (i + c) ws = take i ws @ take c (drop i ws)" by (simp add: take_add)
    then have tic: "take (i + c) ws = take i ws @ w # tw" by (simp add: di c)
    have "length (drop i ws) = 1 + length tw + length dw" by (simp add: di)
    then have le: "i + c \<le> length ws" using True by (simp add: c)
    have "sorted (drop i ws)" using "1.prems"(3) by (rule sorted_wrt_drop)
    then have "sorted (w # drop (Suc i) ws)" using di rest by simp
    then have w_dw: "w \<notin> set dw" unfolding dw_def by (rule dropWhile_sorted_notin)
    have tw_w: "set tw \<subseteq> {w}" unfolding tw_def by (rule takeWhile_eq_subset)
    have "w \<in> set (drop i ws)" by (simp add: di)
    then have w_take: "w \<notin> set (take i ws)" using "1.prems"(2) by blast
    have bound: "\<forall>a \<in> set (take (i + c) ws). \<forall>b \<in> set (drop (i + c) ws). a \<noteq> b"
    proof (intro ballI)
      fix a b
      assume a: "a \<in> set (take (i + c) ws)" and b: "b \<in> set (drop (i + c) ws)"
      have b': "b \<in> set dw" using b by (simp add: dic)
      then have bd: "b \<in> set (drop i ws)" by (simp add: di)
      from a consider "a \<in> set (take i ws)" | "a = w" using tic tw_w by auto
      then show "a \<noteq> b"
      proof cases
        case 1
        then show ?thesis using "1.prems"(2) bd by blast
      next
        case 2
        then show ?thesis using w_dw b' by blast
      qed
    qed
    have IH: "countWords ws (i + c) (m(w \<mapsto> int c)) =
                (\<lambda>v. if v \<in> set (drop (i + c) ws) then Some (int (count_list ws v))
                      else (m(w \<mapsto> int c)) v)"
    proof -
      have le': "i + countRun ws i (ws ! i) 1 \<le> length ws"
        using le unfolding c_def w_def .
      have bound': "\<forall>a \<in> set (take (i + countRun ws i (ws ! i) 1) ws).
                      \<forall>b \<in> set (drop (i + countRun ws i (ws ! i) 1) ws). a \<noteq> b"
        using bound unfolding c_def w_def .
      show ?thesis
        unfolding c_def w_def by (rule "1.IH" [OF True le' bound' "1.prems"(3)])
    qed
    have "count_list ws w = count_list (take i ws) w + count_list (drop i ws) w"
      using count_list_app [of "take i ws" "drop i ws" w] by simp
    also have "count_list (take i ws) w = 0" using w_take by (rule count_list_notin)
    also have "count_list (drop i ws) w = 1 + count_list tw w + count_list dw w"
      by (simp add: di count_list_app)
    also have "count_list dw w = 0" using w_dw by (rule count_list_notin)
    also have "count_list tw w = length tw"
      unfolding tw_def by (rule count_list_takeWhile_eq)
    finally have cnt: "count_list ws w = c" by (simp add: c)
    have sets: "set (drop i ws) = insert w (set dw)" using di tw_w by auto
    have "countWords ws i m = countWords ws (i + c) (m(w \<mapsto> int c))"
      using True by (subst countWords.simps) (simp add: c_def w_def)
    also have "\<dots> = (\<lambda>v. if v \<in> set (drop i ws) then Some (int (count_list ws v)) else m v)"
      unfolding IH dic sets using w_dw cnt by (intro ext) auto
    finally show ?thesis .
  qed
qed

lemma count_list_filter: "count_list xs w = length (filter (\<lambda>x. x = w) xs)"
  by (induction xs) simp_all

lemma count_list_sort: "count_list (sort ws) w = count_list ws w"
  unfolding count_list_filter filter_sort by simp

text \<open>
  Claim C4. For every list of tokens, the weight map that the extractor builds (sort the
  tokens, then count each run of equal neighbours) is the map that plain frequency
  counting builds from the unsorted tokens: the same keys with the same counts.
\<close>

theorem wordCountsOf_frequencyCount: "wordCountsOf ws = frequencyCount ws"
proof -
  have "countWords (sort ws) 0 Map.empty =
          (\<lambda>v. if v \<in> set (drop 0 (sort ws)) then Some (int (count_list (sort ws) v))
                else Map.empty v)"
    by (rule countWords_sorted) simp_all
  then have "countWords (sort ws) 0 Map.empty =
          (\<lambda>v. if v \<in> set ws then Some (int (count_list ws v)) else None)"
    by (simp only: drop_0 set_sort count_list_sort)
  then show ?thesis
    by (simp only: wordCountsOf_def frequencyCount_count)
qed

lemma wordCountsOf_example:
  "map (wordCountsOf [''b'', ''a'', ''b'', ''c'', ''a'', ''b'']) [''a'', ''b'', ''c'', ''d'']
     = [Some 2, Some 3, Some 1, None]"
  by code_simp

section \<open>Properties of the fingerprint encoder\<close>

lemma indexOf_nth: "distinct xs \<Longrightarrow> n < length xs \<Longrightarrow> indexOf (xs ! n) xs = Some n"
proof (induction xs arbitrary: n)
  case Nil
  then show ?case by simp
next
  case (Cons x xs)
  show ?case
  proof (cases n)
    case 0
    then show ?thesis by simp
  next
    case (Suc m)
    then have "xs ! m \<in> set xs" using Cons.prems by simp
    then have "x \<noteq> xs ! m" using Cons.prems by auto
    then show ?thesis using Suc Cons by simp
  qed
qed

lemma encodeStd_distinct: "distinct encodeStd"
  by (simp add: encodeStd_def)

lemma encodeStd_length: "length encodeStd = 64"
  by (simp add: encodeStd_def)

lemma encodeStd_no_pad: "CHR ''='' \<notin> set encodeStd"
  by (simp add: encodeStd_def)

lemma decodeChar_sextet: "decodeChar (sextet val k) = Some (val div 64 ^ (3 - k) mod 64)"
  by (simp add: decodeChar_def sextet_def indexOf_nth encodeStd_distinct encodeStd_length)

lemma sextet_no_pad: "sextet val k \<noteq> CHR ''=''"
proof -
  have "sextet val k \<in> set encodeStd"
    by (simp add: sextet_def encodeStd_length)
  then show ?thesis using encodeStd_no_pad by metis
qed

lemma sextets_val:
  fixes val :: nat
  assumes "val < 16777216"
  shows "val div 262144 mod 64 * 262144 + val div 4096 mod 64 * 4096
           + val div 64 mod 64 * 64 + val mod 64 = val"
proof -
  define v1 where "v1 = val div 64"
  define v2 where "v2 = v1 div 64"
  define v3 where "v3 = v2 div 64"
  have d2: "val div 4096 = v2" by (simp add: v2_def v1_def div_mult2_eq [symmetric])
  have d3: "val div 262144 = v3" by (simp add: v3_def v2_def v1_def div_mult2_eq [symmetric])
  have "v3 < 64" using assms unfolding d3 [symmetric] by simp
  then have m3: "v3 mod 64 = v3" by simp
  have e1: "val = v1 * 64 + val mod 64" by (simp add: v1_def)
  have e2: "v1 = v2 * 64 + v1 mod 64" by (simp add: v2_def)
  have e3: "v2 = v3 * 64 + v2 mod 64" by (simp add: v3_def)
  have "v3 * 262144 + v2 mod 64 * 4096 + v1 mod 64 * 64 + val mod 64 = val"
    using e1 e2 e3 by linarith
  then show ?thesis by (simp add: d2 d3 m3 v1_def [symmetric])
qed

lemma byte_256: "(256 :: byte) = 0"
  by simp

lemma byte_of_unat: "(word_of_nat (unat (a :: byte) + 256 * n) :: byte) = a"
  by (simp add: byte_256)

lemma unat_byte_less: "unat (a :: byte) < 256"
  using unsigned_less [of a] by simp

lemma decode_three:
  fixes a b c :: byte
  defines "val \<equiv> unat a * 65536 + unat b * 256 + unat c"
  shows "(word_of_nat (val div 65536) :: byte) = a"
    and "(word_of_nat (val div 256) :: byte) = b"
    and "(word_of_nat val :: byte) = c"
    and "val < 16777216"
proof -
  have la: "unat a < 256" and lb: "unat b < 256" and lc: "unat c < 256"
    by (rule unat_byte_less)+
  have "val div 65536 = unat a" using lb lc by (simp add: val_def)
  then show "(word_of_nat (val div 65536) :: byte) = a" by simp
  have "val div 256 = unat b + 256 * unat a" using lc by (simp add: val_def)
  then show "(word_of_nat (val div 256) :: byte) = b" by (simp add: byte_256)
  have "val = unat c + 256 * (unat a * 256 + unat b)" by (simp add: val_def)
  then show "(word_of_nat val :: byte) = c" using byte_of_unat by metis
  show "val < 16777216" using la lb lc by (simp add: val_def)
qed

lemma pow64: "(64::nat) ^ 3 = 262144" "(64::nat) ^ 2 = 4096"
  by simp_all

lemma decode_quantum:
  fixes a b c :: byte
  defines "val \<equiv> unat a * 65536 + unat b * 256 + unat c"
  shows "val div 262144 mod 64 * 262144 + val div 4096 mod 64 * 4096
           + val div 64 mod 64 * 64 + val mod 64 = val"
  using decode_three(4) [of a b c] sextets_val unfolding val_def by simp

lemma DecodeString_EncodeToString: "DecodeString (EncodeToString src) = Some src"
proof (induction src rule: EncodeToString.induct)
  case (1 a b c src)
  define val where "val = unat a * 65536 + unat b * 256 + unat c"
  have v: "val div 262144 mod 64 * 262144 + val div 4096 mod 64 * 4096
           + val div 64 mod 64 * 64 + val mod 64 = val"
    unfolding val_def by (rule decode_quantum)
  have bytes: "(word_of_nat (val div 65536) :: byte) = a"
    "(word_of_nat (val div 256) :: byte) = b" "(word_of_nat val :: byte) = c"
    unfolding val_def by (rule decode_three)+
  have "DecodeString (sextet val 0 # sextet val 1 # sextet val 2 # sextet val 3 # EncodeToString src)
          = Some (a # b # c # src)"
    using 1 by (simp add: decodeChar_sextet sextet_no_pad pow64 v bytes)
  then show ?case by (simp add: Let_def val_def)
next
  case (2 a b)
  define val where "val = unat a * 65536 + unat b * 256 + unat (0 :: byte)"
  have v: "val div 262144 mod 64 * 262144 + val div 4096 mod 64 * 4096
           + val div 64 mod 64 * 64 + val mod 64 = val"
    unfolding val_def by (rule decode_quantum)
  have "val = 64 * (unat a * 1024 + unat b * 4)" by (simp add: val_def)
  then have m0: "val mod 64 = 0" by simp
  have v': "val div 262144 mod 64 * 262144 + val div 4096 mod 64 * 4096
           + val div 64 mod 64 * 64 = val"
    by (rule v [unfolded m0 add_0_right])
  have bytes: "(word_of_nat (val div 65536) :: byte) = a"
    "(word_of_nat (val div 256) :: byte) = b"
    unfolding val_def by (rule decode_three)+
  have "DecodeString [sextet val 0, sextet val 1, sextet val 2, CHR ''='']
          = Some [a, b]"
    by (simp add: decodeChar_sextet sextet_no_pad pow64 v' bytes)
  then show ?case by (simp add: Let_def val_def)
next
  case (3 a)
  define val where "val = unat a * 65536 + unat (0 :: byte) * 256 + unat (0 :: byte)"
  have v: "val div 262144 mod 64 * 262144 + val div 4096 mod 64 * 4096
           + val div 64 mod 64 * 64 + val mod 64 = val"
    unfolding val_def by (rule decode_quantum)
  have "val = 64 * (unat a * 1024)" by (simp add: val_def)
  then have m0: "val mod 64 = 0" by simp
  have "val div 64 = 64 * (unat a * 16)" by (simp add: val_def)
  then have m1: "val div 64 mod 64 = 0" by simp
  have v': "val div 262144 mod 64 * 262144 + val div 4096 mod 64 * 4096 = val"
    by (rule v [unfolded m0 m1 mult_0 add_0_right])
  have bytes: "(word_of_nat (val div 65536) :: byte) = a"
    unfolding val_def by (rule decode_three)
  have "DecodeString [sextet val 0, sextet val 1, CHR ''='', CHR ''='']
          = Some [a]"
    by (simp add: decodeChar_sextet sextet_no_pad pow64 v' bytes)
  then show ?case by (simp add: Let_def val_def)
next
  case 4
  then show ?case by simp
qed

lemma swapLoop_nth:
  assumes "0 \<le> i" and "i + j = int (length xs) - 1"
  shows "length (swapLoop xs i j) = length xs \<and>
         (\<forall>k < length xs. swapLoop xs i j ! k =
            (if i \<le> int k \<and> int k \<le> j then xs ! (length xs - 1 - k) else xs ! k))"
  using assms
proof (induction xs i j rule: swapLoop.induct)
  case (1 bytes i j)
  show ?case
  proof (cases "i < j")
    case False
    have "bytes ! (length bytes - 1 - k) = bytes ! k" if "i \<le> int k" "int k \<le> j" for k
    proof -
      have "int k = i" "int k = j" using that False by linarith+
      then have "int (length bytes) - 1 - int k = int k" using "1.prems"(2) by linarith
      then have "length bytes - 1 - k = k" by linarith
      then show ?thesis by simp
    qed
    then show ?thesis using False by (subst swapLoop.simps, subst swapLoop.simps) simp
  next
    case True
    define ys where "ys = bytes[nat i := bytes ! nat j, nat j := bytes ! nat i]"
    have len: "length ys = length bytes" by (simp add: ys_def)
    have i0: "0 \<le> i" by (rule "1.prems"(1))
    have jl: "j < int (length bytes)" using "1.prems" by linarith
    have il: "i < int (length bytes)" using True jl by linarith
    have IH: "length (swapLoop ys (i + 1) (j - 1)) = length ys \<and>
         (\<forall>k < length ys. swapLoop ys (i + 1) (j - 1) ! k =
            (if i + 1 \<le> int k \<and> int k \<le> j - 1 then ys ! (length ys - 1 - k) else ys ! k))"
      using "1.IH" [OF True] "1.prems" len by (simp add: ys_def)
    have step: "swapLoop bytes i j = swapLoop ys (i + 1) (j - 1)"
      using True by (subst swapLoop.simps) (simp add: ys_def)
    have "swapLoop ys (i + 1) (j - 1) ! k =
            (if i \<le> int k \<and> int k \<le> j then bytes ! (length bytes - 1 - k) else bytes ! k)"
      if k: "k < length bytes" for k
    proof -
      have mirror: "int (length bytes - 1 - k) = i + j - int k"
        using k "1.prems"(2) by linarith
      consider (inner) "i + 1 \<le> int k" "int k \<le> j - 1"
        | (left) "int k = i" | (right) "int k = j"
        | (outer) "int k < i \<or> j < int k"
        by linarith
      then show ?thesis
      proof cases
        case inner
        have "nat i \<noteq> length bytes - 1 - k" "nat j \<noteq> length bytes - 1 - k"
          using inner mirror i0 by linarith+
        then have "ys ! (length bytes - 1 - k) = bytes ! (length bytes - 1 - k)"
          by (simp add: ys_def)
        then show ?thesis using IH k len inner by simp
      next
        case left
        have "nat i = k" using left by simp
        moreover have "nat j = length bytes - 1 - k" using mirror left by linarith
        moreover have "nat i \<noteq> nat j" using True i0 by linarith
        ultimately have "ys ! k = bytes ! (length bytes - 1 - k)"
          using k by (simp add: ys_def)
        then show ?thesis using IH k len left True by simp
      next
        case right
        have "nat j = k" using right by simp
        moreover have "nat i = length bytes - 1 - k" using mirror right i0 by linarith
        ultimately have "ys ! k = bytes ! (length bytes - 1 - k)"
          using k by (simp add: ys_def)
        then show ?thesis using IH k len right True by simp
      next
        case outer
        have "nat i \<noteq> k" "nat j \<noteq> k" using outer i0 True by linarith+
        then have "ys ! k = bytes ! k" by (simp add: ys_def)
        then show ?thesis using IH k len outer by auto
      qed
    qed
    then show ?thesis using IH len step by simp
  qed
qed

lemma swapLoop_rev: "swapLoop xs 0 (int (length xs) - 1) = rev xs"
proof (rule nth_equalityI)
  show "length (swapLoop xs 0 (int (length xs) - 1)) = length (rev xs)"
    using swapLoop_nth [of 0 "int (length xs) - 1" xs] by simp
next
  fix k
  assume "k < length (swapLoop xs 0 (int (length xs) - 1))"
  then have k: "k < length xs" using swapLoop_nth [of 0 "int (length xs) - 1" xs] by simp
  then have "swapLoop xs 0 (int (length xs) - 1) ! k = xs ! (length xs - 1 - k)"
    using swapLoop_nth [of 0 "int (length xs) - 1" xs] by auto
  then show "swapLoop xs 0 (int (length xs) - 1) ! k = rev xs ! k"
    using k by (simp add: rev_nth)
qed

lemma SetBytes_snoc: "SetBytes (buf @ [b]) = SetBytes buf * 256 + uint b"
  by (simp add: SetBytes_def)

lemma be_bytes_Suc:
  "map (\<lambda>k. (word_of_int (x div 256 ^ (Suc n - 1 - k)) :: byte)) [0..<Suc n] =
     map (\<lambda>k. word_of_int ((x div 256) div 256 ^ (n - 1 - k))) [0..<n] @ [word_of_int x]"
proof -
  have "x div 256 ^ (n - k) = (x div 256) div 256 ^ (n - 1 - k)" if "k < n" for k
  proof -
    have "n - k = Suc (n - 1 - k)" using that by simp
    then show ?thesis by (simp add: zdiv_zmult2_eq)
  qed
  then show ?thesis by simp
qed

lemma SetBytes_be_bytes:
  "0 \<le> x \<Longrightarrow>
   SetBytes (map (\<lambda>k. (word_of_int (x div 256 ^ (n - 1 - k)) :: byte)) [0..<n]) = x mod 256 ^ n"
proof (induction n arbitrary: x)
  case 0
  then show ?case by (simp add: SetBytes_def)
next
  case (Suc n)
  have x0: "0 \<le> x div 256" using Suc.prems by simp
  have u: "uint (word_of_int x :: byte) = x mod 256"
    by (simp add: uint_word_of_int take_bit_eq_mod)
  have "SetBytes (map (\<lambda>k. (word_of_int (x div 256 ^ (Suc n - 1 - k)) :: byte)) [0..<Suc n])
          = (x div 256) mod 256 ^ n * 256 + x mod 256"
    unfolding be_bytes_Suc SetBytes_snoc using Suc.IH [OF x0] u by simp
  also have "\<dots> = x mod 256 ^ Suc n"
    using mod_mult2_eq' [of x 256 "256 ^ n"] by (simp add: mult.commute)
  finally show ?case .
qed

lemma FillBytes_roundtrip:
  assumes "0 \<le> x" and "x < 256 ^ n"
  shows "\<exists>buf. FillBytes x n = Inr buf \<and> length buf = n \<and> SetBytes buf = x"
  using assms SetBytes_be_bytes [of x n] by (simp add: FillBytes_def)

lemma collectBits_bit:
  "bit (collectBits vector n) i \<longleftrightarrow> i < n \<and> 0 <s vector ! i"
proof (induction n)
  case 0
  then show ?case by (simp add: collectBits_def)
next
  case (Suc n)
  have "collectBits vector (Suc n) =
          (if 0 <s vector ! n then set_bit n (collectBits vector n) else collectBits vector n)"
    by (simp add: collectBits_def)
  then show ?case using Suc by (auto simp add: bit_set_bit_iff less_Suc_eq)
qed

lemma collectBits_range: "0 \<le> collectBits vector n \<and> collectBits vector n < 2 ^ n"
proof -
  have "take_bit n (collectBits vector n) = collectBits vector n"
    by (rule bit_eqI) (auto simp add: bit_take_bit_iff collectBits_bit)
  then show ?thesis
    by (metis take_bit_int_less_exp take_bit_nonnegative)
qed

lemma addFeature_fold:
  "n \<le> length vector \<Longrightarrow>
   fold (\<lambda>i vec. if bit h i then vec[i := vec ! i + v] else vec[i := vec ! i - v]) [0..<n] vector
     = map (\<lambda>i. if i < n then (if bit h i then vector ! i + v else vector ! i - v)
                 else vector ! i) [0..<length vector]"
proof (induction n)
  case 0
  then show ?case by (simp add: map_nth)
next
  case (Suc n)
  then have n: "n < length vector" by simp
  show ?case
    using Suc.IH n
    by (auto intro!: nth_equalityI simp add: nth_list_update less_Suc_eq)
qed

lemma addFeature_map:
  "length vector = n \<Longrightarrow>
   addFeature h v n vector = map (\<lambda>i. if bit h i then vector ! i + v else vector ! i - v) [0..<n]"
  using addFeature_fold [of n vector h v] by (simp add: addFeature_def)

lemma accumulate_sum:
  "length vector = n \<Longrightarrow>
   accumulate H n features vector =
     map (\<lambda>i. vector ! i +
               (\<Sum>(k, v)\<leftarrow>features.
                  if 0 <s v then (if bit (hashFunc H k AND (push_bit n 1 - 1)) i then v else - v)
                  else 0))
       [0..<n]"
proof (induction features arbitrary: vector)
  case Nil
  then have "map ((!) vector) [0..<n] = vector" using map_nth [of vector] by simp
  then show ?case by (simp add: accumulate_def)
next
  case (Cons e features)
  obtain k v where e: "e = (k, v)" by (cases e)
  define vec' where "vec' = (if v \<le>s 0 then vector
       else addFeature (hashFunc H k AND (push_bit n 1 - 1)) v n vector)"
  have len: "length vec' = n" using Cons.prems by (simp add: vec'_def addFeature_map)
  have step: "accumulate H n (e # features) vector = accumulate H n features vec'"
    by (simp add: accumulate_def e vec'_def)
  have nth: "vec' ! i = vector ! i +
      (if 0 <s v then (if bit (hashFunc H k AND (push_bit n 1 - 1)) i then v else - v) else 0)"
    if "i < n" for i
    using that Cons.prems by (auto simp add: vec'_def addFeature_map word_sless_alt word_sle_eq)
  show ?case
    unfolding step Cons.IH [OF len] using nth by (simp add: e add.assoc)
qed

lemma bit_mask_hash: "bit (h AND (push_bit n 1 - 1)) i \<longleftrightarrow> bit (h :: int) i \<and> i < n"
proof -
  have "push_bit n 1 - 1 = (mask n :: int)" by (simp add: mask_eq_exp_minus_1 push_bit_eq_mult)
  then show ?thesis by (auto simp add: bit_and_iff bit_mask_iff)
qed

lemma sint_sum_list_bounded:
  fixes f :: "'a \<Rightarrow> go_int"
  assumes "(\<Sum>e\<leftarrow>es. \<bar>sint (f e)\<bar>) < 2 ^ 63"
  shows "sint (\<Sum>e\<leftarrow>es. f e) = (\<Sum>e\<leftarrow>es. sint (f e))"
  using assms
proof (induction es)
  case Nil
  then show ?case by simp
next
  case (Cons e es)
  have nonneg: "0 \<le> \<bar>sint (f e)\<bar>" by simp
  have rest: "(\<Sum>e\<leftarrow>es. \<bar>sint (f e)\<bar>) < 2 ^ 63" using Cons.prems by simp
  have IH: "sint (\<Sum>e\<leftarrow>es. f e) = (\<Sum>e\<leftarrow>es. sint (f e))" by (rule Cons.IH [OF rest])
  have "\<bar>\<Sum>e\<leftarrow>es. sint (f e)\<bar> \<le> (\<Sum>e\<leftarrow>es. \<bar>sint (f e)\<bar>)"
    using sum_list_abs [of "map (\<lambda>e. sint (f e)) es"] by (simp add: comp_def)
  then have b: "\<bar>sint (f e) + (\<Sum>e\<leftarrow>es. sint (f e))\<bar> < 2 ^ 63"
    using Cons.prems by simp
  have "sint (f e + (\<Sum>e\<leftarrow>es. f e)) =
          signed_take_bit 63 (sint (f e) + sint (\<Sum>e\<leftarrow>es. f e))"
    by (simp add: sint_word_ariths)
  also have "\<dots> = sint (f e) + (\<Sum>e\<leftarrow>es. sint (f e))"
    unfolding IH using b by (intro signed_take_bit_int_eq_self) linarith+
  finally show ?case by simp
qed

lemma sint_neg_positive:
  fixes v :: go_int
  assumes "0 <s v"
  shows "sint (- v) = - sint v"
proof -
  have p: "0 < sint v" using assms by (simp add: word_sless_alt)
  have u: "sint v < 2 ^ 63" using sint_lt [of v] by simp
  have "sint (- v) = signed_take_bit 63 (- sint v)" by (simp add: sint_word_ariths)
  also have "\<dots> = - sint v" using p u by (intro signed_take_bit_int_eq_self) linarith+
  finally show ?thesis .
qed

text \<open>
  Claim C1. For every feature list, every size \<open>sz \<ge> 0\<close> and every position
  \<open>i\<close>, \<open>generateSimhash\<close> returns a value whose bit \<open>i\<close> is set exactly when
  \<open>i < sz\<close> and the accumulator at \<open>i\<close> is strictly positive. The accumulator is
  the sum, over the entries with a weight above zero, of the weight where bit \<open>i\<close> of
  the term's hash reduced to \<open>sz\<close> bits is set and of minus the weight where it is
  not; an accumulator of zero gives bit 0 and the entries with a weight of zero or less
  add nothing. The first statement has the sum as the code computes it, in Go's 64-bit
  \<open>int\<close>; the second has the sum of the integers, which is the same whenever the
  weights above zero add up to less than \<open>2^63\<close> (weights that count the tokens of
  one text always do).
\<close>

theorem generateSimhash_bits:
  assumes "0 \<le> sz"
  shows "\<exists>x. generateSimhash H features sz = Inr x
     \<and> (bit x i \<longleftrightarrow>
          i < nat sz \<and>
          0 <s (\<Sum>(k, v)\<leftarrow>features.
                  if 0 <s v then (if bit (take_bit (nat sz) (hashFunc H k)) i then v else - v)
                  else 0))
     \<and> ((\<Sum>(k, v)\<leftarrow>features. if 0 < sint v then sint v else 0) < 2 ^ 63 \<longrightarrow>
          (bit x i \<longleftrightarrow>
             i < nat sz \<and>
             0 < (\<Sum>(k, v)\<leftarrow>features.
                    if 0 < sint v
                    then (if bit (take_bit (nat sz) (hashFunc H k)) i then sint v else - sint v)
                    else 0)))"
proof -
  define n where "n = nat sz"
  define c :: "string \<times> go_int \<Rightarrow> go_int" where
    "c = (\<lambda>(k, v). if 0 <s v then (if bit (take_bit n (hashFunc H k)) i then v else - v) else 0)"
  define x where "x = collectBits (accumulate H n features (replicate n 0)) n"
  have gen: "generateSimhash H features sz = Inr x"
    using assms by (simp add: generateSimhash_def x_def n_def)
  have red: "bit (hashFunc H k AND (push_bit n 1 - 1)) j \<longleftrightarrow> bit (take_bit n (hashFunc H k)) j"
    for k j
    unfolding bit_mask_hash bit_take_bit_iff by auto
  have c_alt: "(\<lambda>(k, v). if 0 <s v
        then (if bit (hashFunc H k AND (push_bit n 1 - 1)) i then v else - v) else 0) = c"
    unfolding c_def red by (rule refl)
  have acc: "accumulate H n features (replicate n 0) ! i = (\<Sum>e\<leftarrow>features. c e)" if "i < n"
  proof -
    have "accumulate H n features (replicate n 0) ! i =
            map (\<lambda>i. replicate n 0 ! i +
               (\<Sum>(k, v)\<leftarrow>features.
                  if 0 <s v then (if bit (hashFunc H k AND (push_bit n 1 - 1)) i then v else - v)
                  else 0)) [0..<n] ! i"
      by (subst accumulate_sum) simp_all
    also have "\<dots> = replicate n 0 ! i + (\<Sum>(k, v)\<leftarrow>features.
                  if 0 <s v then (if bit (hashFunc H k AND (push_bit n 1 - 1)) i then v else - v)
                  else 0)"
      using that by (simp only: nth_map length_upt diff_zero nth_upt add_0)
    also have "\<dots> = (\<Sum>e\<leftarrow>features. c e)"
      unfolding c_alt using that by simp
    finally show ?thesis .
  qed
  have bits: "bit x i \<longleftrightarrow> i < n \<and> 0 <s (\<Sum>e\<leftarrow>features. c e)"
    using acc by (auto simp add: x_def collectBits_bit)
  have abs_c: "\<bar>sint (c e)\<bar> = (case e of (k, v) \<Rightarrow> if 0 < sint v then sint v else 0)" for e
    by (cases e) (auto simp add: c_def sint_neg_positive word_sless_alt)
  have sint_c: "sint (c e) =
      (case e of (k, v) \<Rightarrow>
         if 0 < sint v
         then (if bit (take_bit n (hashFunc H k)) i then sint v else - sint v) else 0)" for e
    by (cases e) (auto simp add: c_def sint_neg_positive word_sless_alt)
  have exact: "sint (\<Sum>e\<leftarrow>features. c e) =
      (\<Sum>(k, v)\<leftarrow>features.
         if 0 < sint v
         then (if bit (take_bit n (hashFunc H k)) i then sint v else - sint v) else 0)"
    if "(\<Sum>(k, v)\<leftarrow>features. if 0 < sint v then sint v else 0) < 2 ^ 63"
  proof -
    have "(\<Sum>e\<leftarrow>features. \<bar>sint (c e)\<bar>) < 2 ^ 63" using that by (simp add: abs_c)
    then have "sint (\<Sum>e\<leftarrow>features. c e) = (\<Sum>e\<leftarrow>features. sint (c e))"
      by (rule sint_sum_list_bounded)
    then show ?thesis by (simp add: sint_c)
  qed
  have c_eq: "(\<Sum>e\<leftarrow>features. c e) =
      (\<Sum>(k, v)\<leftarrow>features.
          if 0 <s v then (if bit (take_bit n (hashFunc H k)) i then v else - v) else 0)"
    by (simp add: c_def)
  show ?thesis
    using gen bits exact unfolding c_eq n_def [symmetric]
    by (auto simp add: word_sless_alt)
qed

lemma accumulate_set:
  assumes "distinct features"
  shows "accumulate H n features (replicate n 0) =
     map (\<lambda>i. \<Sum>e\<in>set features. (case e of (k, v) \<Rightarrow>
                  if 0 <s v then (if bit (hashFunc H k AND (push_bit n 1 - 1)) i then v else - v)
                  else 0))
       [0..<n]"
proof -
  have "accumulate H n features (replicate n 0) =
     map (\<lambda>i. replicate n 0 ! i +
               (\<Sum>(k, v)\<leftarrow>features.
                  if 0 <s v then (if bit (hashFunc H k AND (push_bit n 1 - 1)) i then v else - v)
                  else 0))
       [0..<n]"
    by (rule accumulate_sum) simp
  then show ?thesis
    using assms by (simp add: sum_list_distinct_conv_sum_set cong: map_cong)
qed

text \<open>
  Claim C2. The fingerprint does not depend on the order in which the feature map is
  iterated: two lists of entries with distinct keys that are the same map yield the same
  result of \<open>GetSimhash\<close> (the same string, or the same panic), for every digest
  function and every size.
\<close>

theorem GetSimhash_order_independent:
  assumes "distinct (map fst xs)" and "distinct (map fst ys)" and "map_of xs = map_of ys"
  shows "GetSimhash H xs sz = GetSimhash H ys sz"
proof -
  have s: "set xs = set ys" using assms by (simp add: map_of_inject_set)
  have dx: "distinct xs" and dy: "distinct ys"
    using assms(1,2) by (simp_all add: distinct_map)
  have "accumulate H n xs (replicate n 0) = accumulate H n ys (replicate n 0)" for n
    by (simp add: accumulate_set dx dy s)
  then have "generateSimhash H xs sz = generateSimhash H ys sz"
    by (simp add: generateSimhash_def)
  then show ?thesis by (simp add: GetSimhash_def)
qed

text \<open>
  Claim C3. For a size \<open>sz \<ge> 0\<close> that is a multiple of 8, \<open>GetSimhash\<close> returns a
  string; decoding it as base64 yields \<open>sz / 8\<close> bytes, which are the bytes that
  \<open>packSimhashToBytes\<close> produced; these are the reverse of the big-endian bytes that
  \<open>FillBytes\<close> wrote, and read in reverse as a big-endian number they are the value
  that \<open>generateSimhash\<close> computed.
\<close>

theorem GetSimhash_roundtrip:
  assumes "0 \<le> sz" and "8 dvd sz"
  shows "\<exists>x s buf. generateSimhash H features sz = Inr x
           \<and> GetSimhash H features sz = Inr s
           \<and> DecodeString s = Some buf
           \<and> length buf = nat (sz div 8)
           \<and> packSimhashToBytes x sz = Inr buf
           \<and> FillBytes x (nat (sz div 8)) = Inr (rev buf)
           \<and> SetBytes (rev buf) = x"
proof -
  define n where "n = nat sz"
  define m where "m = nat (sz div 8)"
  define x where "x = collectBits (accumulate H n features (replicate n 0)) n"
  have gen: "generateSimhash H features sz = Inr x"
    using assms by (simp add: generateSimhash_def x_def n_def)
  have "n = 8 * m" using assms by (auto simp add: n_def m_def)
  then have "(256 :: int) ^ m = 2 ^ n" by (simp add: power_mult)
  then have range: "0 \<le> x" "x < 256 ^ m" using collectBits_range [of _ n] by (simp_all add: x_def)
  obtain be where be: "FillBytes x m = Inr be" "length be = m" "SetBytes be = x"
    using FillBytes_roundtrip [OF range] by blast
  define buf where "buf = rev be"
  have pack: "packSimhashToBytes x sz = Inr buf"
  proof -
    have "0 \<le> sz div 8" using assms(1) by simp
    moreover have "swapLoop be 0 (int (length be) - 1) = rev be" by (rule swapLoop_rev)
    ultimately show ?thesis
      using assms(1) be(1)
      by (simp add: packSimhashToBytes_def Let_def m_def [symmetric] buf_def)
  qed
  have get: "GetSimhash H features sz = Inr (EncodeToString buf)"
    by (simp add: GetSimhash_def gen encodeSimhashToBase64_def pack)
  have "DecodeString (EncodeToString buf) = Some buf" by (rule DecodeString_EncodeToString)
  then show ?thesis
    using gen get pack be by (auto simp add: buf_def m_def)
qed

lemma toy_alpha: "hashFunc toy_digest ''alpha'' AND 255 = 69"
  by (simp add: hashFunc_def toy_digest_def SetBytes_def upt_conv_Cons)

lemma toy_beta: "hashFunc toy_digest ''beta'' AND 255 = 219"
  by (simp add: hashFunc_def toy_digest_def SetBytes_def upt_conv_Cons)

lemma take_bit_8: "take_bit 8 (h :: int) = h AND 255"
  by (simp add: take_bit_eq_mask mask_eq_exp_minus_1)

lemma fs3_accumulate:
  "accumulate toy_digest 8 fs3 (replicate 8 0) = [5, - 1, 1, - 1, - 1, - 5, 5, - 1]"
  by (simp add: accumulate_def fs3_def addFeature_map toy_alpha toy_beta upt_conv_Cons word_sle_eq)

lemma fs3_collect: "collectBits [5, - 1, 1, - 1, - 1, - 5, 5, - 1] 8 = 69"
  by code_simp

lemma fs3_generate: "generateSimhash toy_digest fs3 8 = Inr 69"
  by (simp add: generateSimhash_def fs3_accumulate fs3_collect)

lemma fs3_pack: "packSimhashToBytes 69 8 = Inr [69]"
  by (simp add: packSimhashToBytes_def FillBytes_def swapLoop.simps)

lemma fs3_get: "GetSimhash toy_digest fs3 8 = Inr ''RQ==''"
  by (simp add: GetSimhash_def fs3_generate encodeSimhashToBase64_def fs3_pack sextet_def
        encodeStd_def)

lemma fs3_sums:
  "(\<Sum>(k, v)\<leftarrow>fs3. if 0 < sint v then sint v else 0) = 5"
  "(\<Sum>(k, v)\<leftarrow>fs3. if 0 < sint v
       then (if bit (take_bit (nat 8) (hashFunc toy_digest k)) 0 then sint v else - sint v) else 0) = 5"
  "(\<Sum>(k, v)\<leftarrow>fs3. if 0 < sint v
       then (if bit (take_bit (nat 8) (hashFunc toy_digest k)) 1 then sint v else - sint v) else 0) = - 1"
  by (simp_all add: fs3_def take_bit_8 toy_alpha toy_beta)

theorem generateSimhash_bits_witness:
  "(0 :: int) \<le> 8
   \<and> generateSimhash toy_digest fs3 8 = Inr 69
   \<and> (\<Sum>(k, v)\<leftarrow>fs3. if 0 < sint v then sint v else 0) < 2 ^ 63
   \<and> (bit (69 :: int) 0 \<longleftrightarrow>
        0 < (\<Sum>(k, v)\<leftarrow>fs3. if 0 < sint v
               then (if bit (take_bit (nat 8) (hashFunc toy_digest k)) 0 then sint v else - sint v)
               else 0))
   \<and> (bit (69 :: int) 1 \<longleftrightarrow>
        0 < (\<Sum>(k, v)\<leftarrow>fs3. if 0 < sint v
               then (if bit (take_bit (nat 8) (hashFunc toy_digest k)) 1 then sint v else - sint v)
               else 0))
   \<and> bit (69 :: int) 0 \<and> \<not> bit (69 :: int) 1"
proof -
  have b: "(\<Sum>(k, v)\<leftarrow>fs3. if 0 < sint v then sint v else 0) < 2 ^ 63"
    by (simp add: fs3_sums)
  have i0: "bit (69 :: int) 0 \<longleftrightarrow>
        0 < (\<Sum>(k, v)\<leftarrow>fs3. if 0 < sint v
               then (if bit (take_bit (nat 8) (hashFunc toy_digest k)) 0 then sint v else - sint v)
               else 0)"
    using generateSimhash_bits [of 8 toy_digest fs3 0] b by (simp add: fs3_generate)
  have i1: "bit (69 :: int) 1 \<longleftrightarrow>
        0 < (\<Sum>(k, v)\<leftarrow>fs3. if 0 < sint v
               then (if bit (take_bit (nat 8) (hashFunc toy_digest k)) 1 then sint v else - sint v)
               else 0)"
    using generateSimhash_bits [of 8 toy_digest fs3 1] b by (simp add: fs3_generate)
  have "bit (69 :: int) 0" unfolding i0 by (simp add: fs3_sums)
  moreover have "\<not> bit (69 :: int) 1" unfolding i1 by (simp add: fs3_sums)
  ultimately show ?thesis using b i0 i1 by (simp add: fs3_generate)
qed

theorem GetSimhash_order_independent_witness:
  "distinct (map fst fs3) \<and> distinct (map fst (rev fs3)) \<and> map_of fs3 = map_of (rev fs3)
   \<and> GetSimhash toy_digest fs3 8 = Inr ''RQ==''
   \<and> GetSimhash toy_digest (rev fs3) 8 = Inr ''RQ=='' "
proof -
  have d: "distinct (map fst fs3)" by (simp add: fs3_def)
  have d': "distinct (map fst (rev fs3))" by (simp add: fs3_def)
  have m: "map_of fs3 = map_of (rev fs3)"
    using d d' by (simp add: map_of_inject_set)
  have "GetSimhash toy_digest fs3 8 = GetSimhash toy_digest (rev fs3) 8"
    by (rule GetSimhash_order_independent [OF d d' m])
  then show ?thesis using d d' m by (simp add: fs3_get)
qed

theorem GetSimhash_roundtrip_witness:
  "(0 :: int) \<le> 8 \<and> (8 :: int) dvd 8
   \<and> generateSimhash toy_digest fs3 8 = Inr 69
   \<and> GetSimhash toy_digest fs3 8 = Inr ''RQ==''
   \<and> DecodeString ''RQ=='' = Some [69]
   \<and> packSimhashToBytes 69 8 = Inr [69]
   \<and> FillBytes 69 1 = Inr (rev [69])
   \<and> SetBytes (rev [69]) = 69"
proof -
  obtain x s buf where r: "generateSimhash toy_digest fs3 8 = Inr x"
      "GetSimhash toy_digest fs3 8 = Inr s" "DecodeString s = Some buf"
      "length buf = nat (8 div 8)" "packSimhashToBytes x 8 = Inr buf"
      "FillBytes x (nat (8 div 8)) = Inr (rev buf)" "SetBytes (rev buf) = x"
    using GetSimhash_roundtrip [of 8 toy_digest fs3] by auto
  have x: "x = 69" using r(1) by (simp add: fs3_generate)
  have s: "s = ''RQ==''" using r(2) by (simp add: fs3_get)
  have buf: "buf = [69]" using r(5) by (simp add: x fs3_pack)
  show ?thesis using r x s buf by simp
qed

end
